theory Spec2Isabelle
  imports Complex_Main "HOL-Library.Sublist"
begin

section \<open>Subjects and materials (App.tsx, types.ts)\<close>

text \<open>
  The records follow the interfaces \<^verbatim>\<open>SavedMaterial\<close> and \<^verbatim>\<open>Subject\<close>. Field names carry
  a prefix because both interfaces have an \<^verbatim>\<open>id\<close>. The analysis payload of a material
  plays no part in moving it, so it is a type parameter; a \<^verbatim>\<open>Date\<close> is its time value.
\<close>

datatype source_type = File | Url

record 'a SavedMaterial =
  material_id :: string
  material_title :: string
  material_type :: source_type
  material_date :: int
  analysis :: 'a
  originalSource :: string

record 'a Subject =
  subject_id :: string
  name :: string
  materials :: "'a SavedMaterial list"
  color :: string

text \<open>
  The \<^verbatim>\<open>for\<close> loop at the head of the updater in \<^verbatim>\<open>handleMoveMaterial\<close>: the first subject,
  in list order, that holds a material with the given id, and the first such material in it
  (\<^verbatim>\<open>Array.prototype.find\<close>).
\<close>

fun findSource :: "string \<Rightarrow> 'a Subject list \<Rightarrow> ('a SavedMaterial \<times> string) option" where
  "findSource materialId [] = None"
| "findSource materialId (subject # rest) =
     (case find (\<lambda>m. material_id m = materialId) (materials subject) of
        Some found \<Rightarrow> Some (found, subject_id subject)
      | None \<Rightarrow> findSource materialId rest)"

text \<open>
  The state updater passed to \<^verbatim>\<open>setSubjects\<close>. A material object is always truthy, so
  \<^verbatim>\<open>!materialToMove\<close> is the case \<open>None\<close>; \<^verbatim>\<open>!sourceSubjectId\<close> also holds for the empty
  string.
\<close>

definition handleMoveMaterial :: "string \<Rightarrow> string \<Rightarrow> 'a Subject list \<Rightarrow> 'a Subject list" where
  "handleMoveMaterial materialId targetSubjectId prev =
     (case findSource materialId prev of
        None \<Rightarrow> prev
      | Some (materialToMove, sourceSubjectId) \<Rightarrow>
          if sourceSubjectId = [] \<or> sourceSubjectId = targetSubjectId then prev
          else map (\<lambda>sub.
                 if subject_id sub = sourceSubjectId
                 then sub\<lparr>materials := filter (\<lambda>m. material_id m \<noteq> materialId) (materials sub)\<rparr>
                 else if subject_id sub = targetSubjectId
                 then sub\<lparr>materials := materialToMove # materials sub\<rparr>
                 else sub) prev)"

text \<open>How many materials of the whole state carry a given id, and how many materials there are.\<close>

definition occurrences :: "string \<Rightarrow> 'a Subject list \<Rightarrow> nat" where
  "occurrences materialId subs =
     length (filter (\<lambda>m. material_id m = materialId) (concat (map materials subs)))"

definition total_materials :: "'a Subject list \<Rightarrow> nat" where
  "total_materials subs = length (concat (map materials subs))"

text \<open>A material and a subject, for the examples.\<close>

definition mat1 :: "unit SavedMaterial" where
  "mat1 = \<lparr>material_id = ''m1'', material_title = ''Cells'', material_type = File,
           material_date = 0, analysis = (), originalSource = ''cells.pdf''\<rparr>"

definition subj :: "string \<Rightarrow> unit SavedMaterial list \<Rightarrow> unit Subject" where
  "subj i ms = \<lparr>subject_id = i, name = ''S'', materials = ms, color = ''bg-blue-500''\<rparr>"

section \<open>JavaScript values\<close>

text \<open>
  A number is a finite value or one of the three special values. The finite values are taken
  as rationals: \<^verbatim>\<open>Math.floor\<close>, \<^verbatim>\<open>Math.min\<close> and \<^verbatim>\<open>Math.max\<close> are exact on doubles, and no
  other arithmetic is done on them here. Negative zero is not told apart from zero.
\<close>

datatype jsnumber = Fin rat | PosInf | NegInf | NaN

datatype json =
    JUndefined
  | JNull
  | JBool bool
  | JNum jsnumber
  | JStr string
  | JArr "json list"
  | JObj "(string \<times> json) list"

datatype exn = Error string | TypeError | SyntaxError

fun truthy :: "json \<Rightarrow> bool" where
  "truthy JUndefined = False"
| "truthy JNull = False"
| "truthy (JBool b) = b"
| "truthy (JNum n) = (n \<noteq> Fin 0 \<and> n \<noteq> NaN)"
| "truthy (JStr s) = (s \<noteq> [])"
| "truthy (JArr xs) = True"
| "truthy (JObj kvs) = True"

text \<open>
  Reading a property: a \<^verbatim>\<open>TypeError\<close> on \<^verbatim>\<open>null\<close> and \<^verbatim>\<open>undefined\<close>, the bound value on an
  object, \<^verbatim>\<open>undefined\<close> otherwise (none of the names read here is a built-in property of a
  string, number, boolean or array).
\<close>

fun get :: "json \<Rightarrow> string \<Rightarrow> exn + json" where
  "get JUndefined k = Inl TypeError"
| "get JNull k = Inl TypeError"
| "get (JObj kvs) k = Inr (case map_of kvs k of Some v \<Rightarrow> v | None \<Rightarrow> JUndefined)"
| "get v k = Inr JUndefined"

fun js_or :: "json \<Rightarrow> json \<Rightarrow> json" where
  "js_or a b = (if truthy a then a else b)"

fun Math_floor :: "jsnumber \<Rightarrow> jsnumber" where
  "Math_floor (Fin r) = Fin (of_int \<lfloor>r\<rfloor>)"
| "Math_floor n = n"

fun Math_max :: "jsnumber \<Rightarrow> jsnumber \<Rightarrow> jsnumber" where
  "Math_max NaN b = NaN"
| "Math_max a NaN = NaN"
| "Math_max PosInf b = PosInf"
| "Math_max a PosInf = PosInf"
| "Math_max NegInf b = b"
| "Math_max a NegInf = a"
| "Math_max (Fin a) (Fin b) = Fin (max a b)"

fun Math_min :: "jsnumber \<Rightarrow> jsnumber \<Rightarrow> jsnumber" where
  "Math_min NaN b = NaN"
| "Math_min a NaN = NaN"
| "Math_min NegInf b = NegInf"
| "Math_min a NegInf = NegInf"
| "Math_min PosInf b = b"
| "Math_min a PosInf = a"
| "Math_min (Fin a) (Fin b) = Fin (min a b)"

section \<open>Sanitising the quizzes (geminiService.ts, analyzeLectureContent)\<close>

text \<open>
  The object literal built by the \<^verbatim>\<open>map\<close> callback. \<^verbatim>\<open>QuizQuestion\<close> declares strings, but
  the callback keeps whatever truthy value the parsed response holds, so \<open>question\<close>,
  \<open>explanation\<close> and the entries of \<open>options\<close> stay JavaScript values; \<open>options\<close> is always
  an array and \<open>correctAnswerIndex\<close> always a number.
\<close>

record QuizQuestion =
  question :: json
  options :: "json list"
  correctAnswerIndex :: jsnumber
  explanation :: json

definition sanitizeQuiz :: "json \<Rightarrow> exn + QuizQuestion" where
  "sanitizeQuiz q =
     (case get q ''question'' of Inl e \<Rightarrow> Inl e | Inr qu \<Rightarrow>
     (case get q ''options'' of Inl e \<Rightarrow> Inl e | Inr os \<Rightarrow>
     (case get q ''correctAnswerIndex'' of Inl e \<Rightarrow> Inl e | Inr ci \<Rightarrow>
     (case get q ''explanation'' of Inl e \<Rightarrow> Inl e | Inr ex \<Rightarrow>
      Inr \<lparr>question = js_or qu (JStr ''Untitled Question''),
           options = (case os of
                        JArr xs \<Rightarrow> if length xs \<ge> 2 then xs else [JStr ''True'', JStr ''False'']
                      | _ \<Rightarrow> [JStr ''True'', JStr ''False'']),
           correctAnswerIndex = (case ci of JNum n \<Rightarrow> n | _ \<Rightarrow> Fin 0),
           explanation = js_or ex (JStr ''No explanation provided.'')\<rparr>))))"

text \<open>\<^verbatim>\<open>data.quizzes.map(...)\<close>: the first element that raises ends the whole call.\<close>

fun mapM :: "('a \<Rightarrow> exn + 'b) \<Rightarrow> 'a list \<Rightarrow> exn + 'b list" where
  "mapM f [] = Inr []"
| "mapM f (x # xs) =
     (case f x of Inl e \<Rightarrow> Inl e
      | Inr y \<Rightarrow> (case mapM f xs of Inl e \<Rightarrow> Inl e | Inr ys \<Rightarrow> Inr (y # ys)))"

definition sanitizeQuizzes :: "json list \<Rightarrow> exn + QuizQuestion list" where
  "sanitizeQuizzes qs =
     (case mapM sanitizeQuiz qs of
        Inl e \<Rightarrow> Inl e
      | Inr out \<Rightarrow> Inr (filter (\<lambda>q. length (options q) > 0) out))"

section \<open>The quiz view (QuizView.tsx)\<close>

text \<open>
  The view receives the quizzes of a delivered analysis, that is, objects in the shape above:
  \<^verbatim>\<open>q\<close> is an object and \<^verbatim>\<open>q.options\<close> an array, so the conjuncts \<^verbatim>\<open>q\<close> and
  \<^verbatim>\<open>Array.isArray(q.options)\<close> of the filter hold by type. A missing prop
  (\<^verbatim>\<open>quizzes || []\<close>) is \<open>None\<close>.
\<close>

definition validQuizzes :: "QuizQuestion list option \<Rightarrow> QuizQuestion list" where
  "validQuizzes quizzes =
     filter (\<lambda>q. truthy (question q) \<and> length (options q) \<ge> 2)
       (case quizzes of None \<Rightarrow> [] | Some qs \<Rightarrow> qs)"

text \<open>\<^verbatim>\<open>Number(x)\<close> of a number is that number; \<^verbatim>\<open>isNaN\<close> is the test for \<open>NaN\<close>.\<close>

definition getSafeCorrectIndex :: "QuizQuestion \<Rightarrow> jsnumber" where
  "getSafeCorrectIndex q =
     (let raw = correctAnswerIndex q;
          index = (if raw = NaN then Fin 0 else Math_floor raw)
      in Math_min (Math_max (Fin 0) index) (Fin (of_nat (length (options q)) - 1)))"

section \<open>Strings\<close>

text \<open>
  A string is a list of characters. The characters that \<^verbatim>\<open>trim\<close> strips and \<^verbatim>\<open>\s\<close>
  matches are tab, line feed, vertical tab, form feed, carriage return, space and the
  no-break space.
\<close>

abbreviation dquote :: char where "dquote \<equiv> CHR 0x22"
abbreviation backslash :: char where "backslash \<equiv> CHR 0x5C"

definition is_space :: "char \<Rightarrow> bool" where
  "is_space c = (c \<in> set [CHR 0x09, CHR 0x0A, CHR 0x0B, CHR 0x0C, CHR 0x0D, CHR 0x20, CHR 0xA0])"

definition trim :: "string \<Rightarrow> string" where
  "trim s = rev (dropWhile is_space (rev (dropWhile is_space s)))"

text \<open>\<^verbatim>\<open>s.replace(/pat/g, "")\<close> for a literal pattern: leftmost matches, left to right.\<close>

function stripAll :: "string \<Rightarrow> string \<Rightarrow> string" where
  "stripAll pat s =
     (if s = [] then []
      else if pat \<noteq> [] \<and> prefix pat s then stripAll pat (drop (length pat) s)
      else hd s # stripAll pat (tl s))"
  by pat_completeness auto
termination
  by (relation "measure (\<lambda>(pat, s). length s)") auto

definition indexOf :: "char \<Rightarrow> string \<Rightarrow> nat option" where
  "indexOf c s = (if c \<in> set s then Some (length (takeWhile (\<lambda>x. x \<noteq> c) s)) else None)"

definition lastIndexOf :: "char \<Rightarrow> string \<Rightarrow> nat option" where
  "lastIndexOf c s =
     (if c \<in> set s then Some (length s - 1 - length (takeWhile (\<lambda>x. x \<noteq> c) (rev s))) else None)"

definition substring :: "string \<Rightarrow> nat \<Rightarrow> nat \<Rightarrow> string" where
  "substring s a b = take (b - a) (drop a s)"

section \<open>cleanJson and repairJson (geminiService.ts)\<close>

definition cleanJson :: "string \<Rightarrow> string" where
  "cleanJson text =
     (let cleaned = stripAll ''```'' (stripAll ''```json'' text) in
      case indexOf CHR ''{'' cleaned of
        None \<Rightarrow> cleaned
      | Some firstBrace \<Rightarrow>
          (case lastIndexOf CHR ''}'' cleaned of
             Some lastBrace \<Rightarrow>
               if lastBrace > firstBrace then substring cleaned firstBrace (lastBrace + 1)
               else drop firstBrace cleaned
           | None \<Rightarrow> drop firstBrace cleaned))"

text \<open>
  \<^verbatim>\<open>replace(/,\s*$/, '')\<close>: the leftmost comma that only white space follows up to the end of
  the string is cut together with that white space.
\<close>

fun dropTrailingComma :: "string \<Rightarrow> string" where
  "dropTrailingComma [] = []"
| "dropTrailingComma (c # cs) =
     (if c = CHR '','' \<and> list_all is_space cs then [] else c # dropTrailingComma cs)"

text \<open>
  The state of the \<^verbatim>\<open>for\<close> loop of \<^verbatim>\<open>repairJson\<close>. The stack is kept with its top at the
  head of the list: \<^verbatim>\<open>push\<close> is a cons, \<^verbatim>\<open>pop\<close> the tail, and
  \<^verbatim>\<open>stack[stack.length - 1] === '{'\<close> is false on the empty stack.
\<close>

record scan_state =
  stack :: string
  inString :: bool
  escape :: bool

definition top_is :: "char \<Rightarrow> string \<Rightarrow> bool" where
  "top_is c st = (case st of [] \<Rightarrow> False | t # _ \<Rightarrow> t = c)"

definition scanStep :: "scan_state \<Rightarrow> char \<Rightarrow> scan_state" where
  "scanStep st c =
     (let inString' = (if c = dquote \<and> \<not> escape st then \<not> inString st else inString st);
          escape' = (c = backslash \<and> \<not> escape st);
          stack' =
            (if inString' then stack st
             else if c = CHR ''{'' \<or> c = CHR ''['' then c # stack st
             else if c = CHR ''}'' then (if top_is CHR ''{'' (stack st) then tl (stack st) else stack st)
             else if c = CHR '']'' then (if top_is CHR ''['' (stack st) then tl (stack st) else stack st)
             else stack st)
      in \<lparr>stack = stack', inString = inString', escape = escape'\<rparr>)"

definition scan :: "string \<Rightarrow> scan_state" where
  "scan s = foldl scanStep \<lparr>stack = [], inString = False, escape = False\<rparr> s"

text \<open>The \<^verbatim>\<open>while\<close> loop: pop every entry and append its closing character.\<close>

fun closeAll :: "string \<Rightarrow> string" where
  "closeAll [] = []"
| "closeAll (c # st) =
     (if c = CHR ''{'' then ''}'' else []) @ (if c = CHR ''['' then '']'' else []) @ closeAll st"

definition repairJson :: "string \<Rightarrow> string" where
  "repairJson jsonStr =
     (let repaired = trim jsonStr;
          repaired = (if repaired \<noteq> [] \<and> last repaired = backslash then butlast repaired
                      else repaired);
          repaired = dropTrailingComma repaired
      in repaired @ closeAll (stack (scan repaired)))"

section \<open>Well-formed JSON text\<close>

text \<open>
  The grammar of JSON text (ECMA-404), which is what \<^verbatim>\<open>JSON.parse\<close> accepts: white space,
  strings with their escapes, numbers, the three literals, arrays and objects.
\<close>

definition json_ws :: "string \<Rightarrow> bool" where
  "json_ws s = list_all (\<lambda>c. c \<in> set [CHR 0x20, CHR 0x09, CHR 0x0A, CHR 0x0D]) s"

definition is_digit :: "char \<Rightarrow> bool" where
  "is_digit c = (c \<in> set ''0123456789'')"

definition is_hex :: "char \<Rightarrow> bool" where
  "is_hex c = (c \<in> set ''0123456789abcdefABCDEF'')"

fun json_chars :: "string \<Rightarrow> bool" where
  "json_chars [] = True"
| "json_chars [c] = (c \<noteq> dquote \<and> c \<noteq> backslash \<and> (0x20::nat) \<le> of_char c)"
| "json_chars (c # e # cs) =
     (if c = backslash
      then (if e \<in> set [dquote, backslash, CHR ''/'', CHR ''b'', CHR ''f'', CHR ''n'', CHR ''r'', CHR ''t'']
            then json_chars cs
            else e = CHR ''u'' \<and> length cs \<ge> 4 \<and> list_all is_hex (take 4 cs) \<and> json_chars (drop 4 cs))
      else c \<noteq> dquote \<and> (0x20::nat) \<le> of_char c \<and> json_chars (e # cs))"

definition json_string :: "string \<Rightarrow> bool" where
  "json_string s =
     (length s \<ge> 2 \<and> hd s = dquote \<and> last s = dquote \<and> json_chars (butlast (tl s)))"

definition json_exponent :: "string \<Rightarrow> bool" where
  "json_exponent s =
     (s = [] \<or>
      (case s of
         e # r \<Rightarrow> (e = CHR ''e'' \<or> e = CHR ''E'') \<and>
            (let ds = (case r of sg # r' \<Rightarrow> if sg = CHR ''+'' \<or> sg = CHR ''-'' then r' else r | [] \<Rightarrow> r)
             in ds \<noteq> [] \<and> list_all is_digit ds)
       | [] \<Rightarrow> False))"

definition json_fraction :: "string \<Rightarrow> bool" where
  "json_fraction s =
     (case s of
        c # r \<Rightarrow>
          if c = CHR ''.'' then takeWhile is_digit r \<noteq> [] \<and> json_exponent (dropWhile is_digit r)
          else json_exponent s
      | [] \<Rightarrow> True)"

definition json_number :: "string \<Rightarrow> bool" where
  "json_number s =
     (let u = (case s of c # r \<Rightarrow> if c = CHR ''-'' then r else s | [] \<Rightarrow> s) in
      case u of
        d # r \<Rightarrow>
          if d = CHR ''0'' then json_fraction r
          else is_digit d \<and> json_fraction (dropWhile is_digit r)
      | [] \<Rightarrow> False)"

inductive json_value :: "string \<Rightarrow> bool"
  and json_element :: "string \<Rightarrow> bool"
  and json_elements :: "string \<Rightarrow> bool"
  and json_member :: "string \<Rightarrow> bool"
  and json_members :: "string \<Rightarrow> bool"
where
  V_string: "json_string s \<Longrightarrow> json_value s"
| V_number: "json_number s \<Longrightarrow> json_value s"
| V_true: "json_value ''true''"
| V_false: "json_value ''false''"
| V_null: "json_value ''null''"
| V_empty_array: "json_ws w \<Longrightarrow> json_value (''['' @ w @ '']'')"
| V_array: "json_elements es \<Longrightarrow> json_value (''['' @ es @ '']'')"
| V_empty_object: "json_ws w \<Longrightarrow> json_value (''{'' @ w @ ''}'')"
| V_object: "json_members ms \<Longrightarrow> json_value (''{'' @ ms @ ''}'')"
| Element: "json_ws a \<Longrightarrow> json_value v \<Longrightarrow> json_ws b \<Longrightarrow> json_element (a @ v @ b)"
| Elements_one: "json_element e \<Longrightarrow> json_elements e"
| Elements_more: "json_element e \<Longrightarrow> json_elements es \<Longrightarrow> json_elements (e @ '','' @ es)"
| Member: "json_ws a \<Longrightarrow> json_string k \<Longrightarrow> json_ws b \<Longrightarrow> json_element e \<Longrightarrow>
           json_member (a @ k @ b @ '':'' @ e)"
| Members_one: "json_member m \<Longrightarrow> json_members m"
| Members_more: "json_member m \<Longrightarrow> json_members ms \<Longrightarrow> json_members (m @ '','' @ ms)"

text \<open>
  Text whose braces and brackets are balanced outside quoted strings. A quoted string runs
  from a quote to the next quote that no backslash escapes; the other characters are
  neither quotes, backslashes, braces nor brackets.
\<close>

fun quoted_body :: "string \<Rightarrow> bool" where
  "quoted_body [] = True"
| "quoted_body [c] = (c \<noteq> dquote \<and> c \<noteq> backslash)"
| "quoted_body (c # e # cs) =
     (if c = backslash then quoted_body cs else c \<noteq> dquote \<and> quoted_body (e # cs))"

definition plain :: "char \<Rightarrow> bool" where
  "plain c = (c \<notin> set [dquote, backslash, CHR ''{'', CHR ''}'', CHR ''['', CHR '']''])"

inductive balanced :: "string \<Rightarrow> bool" where
  B_empty: "balanced []"
| B_plain: "plain c \<Longrightarrow> balanced [c]"
| B_quoted: "quoted_body q \<Longrightarrow> balanced (dquote # q @ [dquote])"
| B_brace: "balanced x \<Longrightarrow> balanced (''{'' @ x @ ''}'')"
| B_bracket: "balanced x \<Longrightarrow> balanced (''['' @ x @ '']'')"
| B_append: "balanced x \<Longrightarrow> balanced y \<Longrightarrow> balanced (x @ y)"

text \<open>A raw quiz object of a parsed response, for the examples.\<close>

definition quiz_raw :: "json \<Rightarrow> json \<Rightarrow> json" where
  "quiz_raw os ci = JObj [(''question'', JStr ''Q''), (''options'', os), (''correctAnswerIndex'', ci)]"


section \<open>Notions used in the proofs\<close>

text \<open>The closing characters, and the characters a JSON number is made of.\<close>

definition closer :: "char \<Rightarrow> bool" where
  "closer c = (c = CHR ''}'' \<or> c = CHR '']'')"

definition numchar :: "char \<Rightarrow> bool" where
  "numchar c = (c \<in> set ''0123456789+-.eE'')"

text \<open>
  A prefix \<open>s\<close> of a text, cut before the closing characters \<open>cs\<close>: up to trailing white
  space it ends in a character that is neither white space, a comma nor a backslash, and
  without that white space it is, with \<open>cs\<close> put back, again a text of the kind \<open>X\<close>.
\<close>

definition cut_ok :: "(string \<Rightarrow> bool) \<Rightarrow> string \<Rightarrow> string \<Rightarrow> bool" where
  "cut_ok X s cs =
     (\<exists>t b. s = t @ b \<and> json_ws b \<and> t \<noteq> [] \<and> \<not> is_space (last t) \<and> last t \<noteq> CHR '',''
        \<and> last t \<noteq> backslash \<and> X (t @ cs))"

text \<open>A state of the scanning loop.\<close>

abbreviation St :: "string \<Rightarrow> bool \<Rightarrow> bool \<Rightarrow> scan_state" where
  "St st b e \<equiv> \<lparr>stack = st, inString = b, escape = e\<rparr>"

section \<open>The regular expressions of fallbackExtraction (geminiService.ts)\<close>

text \<open>
  The expressions are matched by hand. Each of them is deterministic: a greedy \<^verbatim>\<open>\s*\<close> is
  followed by a character that is not white space, and a lazy capture ends at the first place
  where the rest of the expression matches, which is the first quote or bracket that the
  capture itself cannot take in. A match is looked for at every position from the left.
  \<^verbatim>\<open>.\<close> matches every character but a line terminator.
\<close>

definition is_line_terminator :: "char \<Rightarrow> bool" where
  "is_line_terminator c = (c = CHR 0x0A \<or> c = CHR 0x0D)"

text \<open>\<^verbatim>\<open>"key"\s*:\s*\<close> and one opening character, at the head of the text: what follows it.\<close>

definition after_key :: "string \<Rightarrow> char \<Rightarrow> string \<Rightarrow> string option" where
  "after_key key opening s =
     (let lit = [dquote] @ key @ [dquote] in
      if prefix lit s then
        (case dropWhile is_space (drop (length lit) s) of
           c # r \<Rightarrow>
             if c = CHR '':'' then
               (case dropWhile is_space r of
                  c' # body \<Rightarrow> if c' = opening then Some body else None
                | [] \<Rightarrow> None)
             else None
         | [] \<Rightarrow> None)
      else None)"

text \<open>\<^verbatim>\<open>((?:[^"\\]|\\.)*?)"\<close>: the capture and the text after the closing quote.\<close>

fun cap_escaped :: "string \<Rightarrow> (string \<times> string) option" where
  "cap_escaped [] = None"
| "cap_escaped [c] = (if c = dquote then Some ([], []) else None)"
| "cap_escaped (c # e # r) =
     (if c = dquote then Some ([], e # r)
      else if c = backslash then
        (if is_line_terminator e then None
         else map_option (\<lambda>(b, rest). (c # e # b, rest)) (cap_escaped r))
      else map_option (\<lambda>(b, rest). (c # b, rest)) (cap_escaped (e # r)))"

text \<open>A lazy capture up to the first occurrence of a character, and the text after it.\<close>

definition cap_until :: "char \<Rightarrow> string \<Rightarrow> (string \<times> string) option" where
  "cap_until c s =
     (if c \<in> set s then Some (takeWhile (\<lambda>x. x \<noteq> c) s, tl (dropWhile (\<lambda>x. x \<noteq> c) s))
      else None)"

text \<open>The leftmost position at which a match succeeds.\<close>

fun find_first :: "(string \<Rightarrow> 'a option) \<Rightarrow> string \<Rightarrow> 'a option" where
  "find_first f [] = f []"
| "find_first f (c # cs) = (case f (c # cs) of Some r \<Rightarrow> Some r | None \<Rightarrow> find_first f cs)"

text \<open>
  \<^verbatim>\<open>matchAll\<close> with a global expression: the leftmost match, then the matches of the text after
  it. No match of the expressions below is empty, so that text is shorter; the test says so
  to the termination proof.
\<close>

function matchAll :: "(string \<Rightarrow> ('a \<times> string) option) \<Rightarrow> string \<Rightarrow> 'a list" where
  "matchAll f s =
     (case s of
        [] \<Rightarrow> []
      | c # cs \<Rightarrow>
          (case f s of
             Some (x, rest) \<Rightarrow> if length rest < length s then x # matchAll f rest else [x]
           | None \<Rightarrow> matchAll f cs))"
  by pat_completeness auto
termination
  by (relation "measure (\<lambda>(f, s). length s)") auto

definition titleMatch :: "string \<Rightarrow> string option" where
  "titleMatch text =
     find_first (\<lambda>s. case after_key ''title'' dquote s of
                        Some body \<Rightarrow> map_option fst (cap_until dquote body)
                      | None \<Rightarrow> None) text"

definition summaryMatch :: "string \<Rightarrow> string option" where
  "summaryMatch text =
     find_first (\<lambda>s. case after_key ''summary'' dquote s of
                        Some body \<Rightarrow> map_option fst (cap_escaped body)
                      | None \<Rightarrow> None) text"

definition kpMatch :: "string \<Rightarrow> string option" where
  "kpMatch text =
     find_first (\<lambda>s. case after_key ''keyPoints'' CHR ''['' s of
                        Some body \<Rightarrow> map_option fst (cap_until CHR '']'' body)
                      | None \<Rightarrow> None) text"

definition quoted_at :: "string \<Rightarrow> (string \<times> string) option" where
  "quoted_at s = (case s of c # r \<Rightarrow> if c = dquote then cap_escaped r else None | [] \<Rightarrow> None)"

definition keyPointsOf :: "string \<Rightarrow> string list" where
  "keyPointsOf text = (case kpMatch text of Some inner \<Rightarrow> matchAll quoted_at inner | None \<Rightarrow> [])"

definition back_at :: "string \<Rightarrow> string \<Rightarrow> ((string \<times> string) \<times> string) option" where
  "back_at front s =
     (case after_key ''back'' dquote s of
        Some body \<Rightarrow> map_option (\<lambda>(back, rest). ((front, back), rest)) (cap_escaped body)
      | None \<Rightarrow> None)"

definition flashcard_at :: "string \<Rightarrow> ((string \<times> string) \<times> string) option" where
  "flashcard_at s =
     (case after_key ''front'' dquote s of
        Some body \<Rightarrow>
          (case cap_escaped body of
             Some (front, r1) \<Rightarrow> find_first (back_at front) r1
           | None \<Rightarrow> None)
      | None \<Rightarrow> None)"

text \<open>\<^verbatim>\<open>"options"\s*:\s*\[(.*?)\]\<close>: the capture holds no line terminator.\<close>

definition options_at :: "string \<Rightarrow> string \<Rightarrow> ((string \<times> string) \<times> string) option" where
  "options_at q s =
     (case after_key ''options'' CHR ''['' s of
        Some body \<Rightarrow>
          (case cap_until CHR '']'' body of
             Some (os, rest) \<Rightarrow>
               if list_ex is_line_terminator os then None else Some ((q, os), rest)
           | None \<Rightarrow> None)
      | None \<Rightarrow> None)"

definition quiz_at :: "string \<Rightarrow> ((string \<times> string) \<times> string) option" where
  "quiz_at s =
     (case after_key ''question'' dquote s of
        Some body \<Rightarrow>
          (case cap_until dquote body of
             Some (q, r1) \<Rightarrow> if q = [] then None else find_first (options_at q) r1
           | None \<Rightarrow> None)
      | None \<Rightarrow> None)"

text \<open>\<^verbatim>\<open>split(',')\<close>, \<^verbatim>\<open>replace(/^"|"$/g, '')\<close> and \<^verbatim>\<open>replace(/\\"/g, '"')\<close>.\<close>

fun split_on :: "char \<Rightarrow> string \<Rightarrow> string list" where
  "split_on c [] = [[]]"
| "split_on c (x # xs) =
     (if x = c then [] # split_on c xs
      else (case split_on c xs of p # ps \<Rightarrow> (x # p) # ps | [] \<Rightarrow> [[x]]))"

definition strip_quotes :: "string \<Rightarrow> string" where
  "strip_quotes s =
     (let s1 = (if s \<noteq> [] \<and> hd s = dquote then tl s else s)
      in if s1 \<noteq> [] \<and> last s1 = dquote then butlast s1 else s1)"

fun unescape_quotes :: "string \<Rightarrow> string" where
  "unescape_quotes [] = []"
| "unescape_quotes [c] = [c]"
| "unescape_quotes (c # e # r) =
     (if c = backslash \<and> e = dquote then dquote # unescape_quotes r
      else c # unescape_quotes (e # r))"

definition quizOptions :: "string \<Rightarrow> string list" where
  "quizOptions optionsStr =
     take 4 (map (\<lambda>o'. unescape_quotes (strip_quotes (trim o'))) (split_on CHR '','' optionsStr))"

definition fallbackExtraction :: "string \<Rightarrow> json" where
  "fallbackExtraction text =
     (let keyPoints = keyPointsOf text;
          flashcards = map (\<lambda>(front, back). JObj [(''front'', JStr front), (''back'', JStr back)])
                         (matchAll flashcard_at text);
          quizzes = map (\<lambda>(q, optionsStr).
                       JObj [(''question'', JStr q),
                             (''options'', JArr (map JStr (quizOptions optionsStr))),
                             (''correctAnswerIndex'', JNum (Fin 0)),
                             (''explanation'', JStr ''Explanation unavailable in fallback mode.'')])
                      (matchAll quiz_at text)
      in JObj [(''title'', JStr (case titleMatch text of Some t \<Rightarrow> t | None \<Rightarrow> ''Untitled Analysis'')),
               (''summary'', JStr (case summaryMatch text of Some t \<Rightarrow> t
                                   | None \<Rightarrow> ''Summary unavailable.'')),
               (''keyPoints'', JArr (map JStr (if keyPoints \<noteq> [] then keyPoints
                                               else [''Analysis completed partially.'']))),
               (''flashcards'', JArr flashcards),
               (''quizzes'', JArr quizzes)])"

section \<open>The shape of a LectureAnalysis (types.ts)\<close>

definition field_of :: "json \<Rightarrow> string \<Rightarrow> json" where
  "field_of v k = (case get v k of Inr x \<Rightarrow> x | Inl e \<Rightarrow> JUndefined)"

fun is_string :: "json \<Rightarrow> bool" where
  "is_string (JStr s) = True"
| "is_string v = False"

fun is_number :: "json \<Rightarrow> bool" where
  "is_number (JNum n) = True"
| "is_number v = False"

fun is_array_of :: "(json \<Rightarrow> bool) \<Rightarrow> json \<Rightarrow> bool" where
  "is_array_of P (JArr xs) = list_all P xs"
| "is_array_of P v = False"

fun is_object :: "json \<Rightarrow> bool" where
  "is_object (JObj kvs) = True"
| "is_object v = False"

definition is_Flashcard :: "json \<Rightarrow> bool" where
  "is_Flashcard v = (is_object v \<and> is_string (field_of v ''front'') \<and> is_string (field_of v ''back''))"

definition is_QuizQuestion :: "json \<Rightarrow> bool" where
  "is_QuizQuestion v =
     (is_object v \<and> is_string (field_of v ''question'') \<and> is_array_of is_string (field_of v ''options'')
      \<and> is_number (field_of v ''correctAnswerIndex'') \<and> is_string (field_of v ''explanation''))"

definition is_LectureAnalysis :: "json \<Rightarrow> bool" where
  "is_LectureAnalysis v =
     (is_object v \<and> is_string (field_of v ''title'') \<and> is_string (field_of v ''summary'')
      \<and> is_array_of is_string (field_of v ''keyPoints'')
      \<and> is_array_of is_Flashcard (field_of v ''flashcards'')
      \<and> is_array_of is_QuizQuestion (field_of v ''quizzes''))"

section \<open>One attempt and the retry loop (geminiService.ts, analyzeLectureContent)\<close>

text \<open>
  \<^verbatim>\<open>JSON.parse\<close> is a function of the platform: the model takes it as a parameter \<open>parse\<close>,
  with \<open>Inl\<close> for the exception it raises on text that is not JSON. Both \<^verbatim>\<open>catch\<close> clauses
  catch whatever is raised.
\<close>

definition normalizeResponse :: "(string \<Rightarrow> exn + json) \<Rightarrow> string \<Rightarrow> exn + json" where
  "normalizeResponse parse text =
     (let cleanedText = cleanJson text in
      case parse cleanedText of
        Inr data \<Rightarrow> Inr data
      | Inl parseError \<Rightarrow>
          (case parse (repairJson cleanedText) of
             Inr data \<Rightarrow> Inr data
           | Inl repairError \<Rightarrow> Inr (fallbackExtraction text)))"

text \<open>
  What the attempt returns: the parsed object, with its \<^verbatim>\<open>quizzes\<close> and \<^verbatim>\<open>flashcards\<close>
  properties set to the sanitised lists.
\<close>

record analysis_result =
  parsed :: json
  result_flashcards :: "json list"
  result_quizzes :: "QuizQuestion list"

text \<open>
  \<^verbatim>\<open>data.title.includes(x)\<close>: a substring test on a string, a membership test on an array, a
  \<^verbatim>\<open>TypeError\<close> on any other truthy value (it has no such method).
\<close>

definition js_includes :: "json \<Rightarrow> string \<Rightarrow> exn + bool" where
  "js_includes v x =
     (case v of
        JStr s \<Rightarrow> Inr (sublist x s)
      | JArr xs \<Rightarrow> Inr (JStr x \<in> set xs)
      | _ \<Rightarrow> Inl TypeError)"

text \<open>
  \<^verbatim>\<open>new Error(v)\<close> keeps the string \<^verbatim>\<open>String(v)\<close>, which is \<open>v\<close> itself for a string; for the
  other values the conversion is the platform's, a parameter \<open>str\<close>.
\<close>

definition to_string :: "(json \<Rightarrow> string) \<Rightarrow> json \<Rightarrow> string" where
  "to_string str v = (case v of JStr s \<Rightarrow> s | _ \<Rightarrow> str v)"

definition array_or_empty :: "json \<Rightarrow> json list" where
  "array_or_empty v = (case v of JArr xs \<Rightarrow> xs | _ \<Rightarrow> [])"

text \<open>
  The body of the \<^verbatim>\<open>try\<close> block after the call of the model; \<open>responseText\<close> is
  \<^verbatim>\<open>response.text\<close>, \<open>None\<close> when it is undefined. Setting a property on a number, string or
  boolean raises a \<^verbatim>\<open>TypeError\<close> (in sloppy mode the write is dropped and the call of
  \<^verbatim>\<open>data.quizzes.map\<close> raises it).
\<close>

definition processResponse ::
  "(string \<Rightarrow> exn + json) \<Rightarrow> (json \<Rightarrow> string) \<Rightarrow> string option \<Rightarrow> exn + analysis_result" where
  "processResponse parse str responseText =
     (case responseText of
        None \<Rightarrow> Inl (Error ''Empty AI response'')
      | Some text \<Rightarrow>
          if text = [] then Inl (Error ''Empty AI response'')
          else
            (case normalizeResponse parse text of Inl e \<Rightarrow> Inl e | Inr data \<Rightarrow>
            (case get data ''title'' of Inl e \<Rightarrow> Inl e | Inr title \<Rightarrow>
            (case (if truthy title
                   then (case js_includes title ''Error'' of
                           Inl e \<Rightarrow> Inl e
                         | Inr True \<Rightarrow> Inr True
                         | Inr False \<Rightarrow> js_includes title ''Analysis Failed'')
                   else Inr False) of
               Inl e \<Rightarrow> Inl e
             | Inr True \<Rightarrow>
                 Inl (Error (to_string str (js_or (field_of data ''summary'')
                                                  (JStr ''Content analysis failed.''))))
             | Inr False \<Rightarrow>
                 if \<not> is_object data \<and> \<not> is_array_of (\<lambda>x. True) data then Inl TypeError
                 else
                   (case sanitizeQuizzes (array_or_empty (field_of data ''quizzes'')) of
                      Inl e \<Rightarrow> Inl e
                    | Inr qs \<Rightarrow>
                        Inr \<lparr>parsed = data,
                             result_flashcards = array_or_empty (field_of data ''flashcards''),
                             result_quizzes = qs\<rparr>)))))"

text \<open>
  The message of an exception. The text of a built-in error is the engine's and is not
  empty; the name of the error stands for it.
\<close>

fun message :: "exn \<Rightarrow> string" where
  "message (Error m) = m"
| "message TypeError = ''TypeError''"
| "message SyntaxError = ''SyntaxError''"

definition MAX_RETRIES :: nat where
  "MAX_RETRIES = 2"

text \<open>
  The \<^verbatim>\<open>for\<close> loop. \<open>body attempt\<close> is the outcome of the \<^verbatim>\<open>try\<close> block of that attempt. The
  second component of the result counts the attempts made; the code has no such counter.
\<close>

function retryFrom :: "(nat \<Rightarrow> exn + 'a) \<Rightarrow> nat \<Rightarrow> (exn + 'a) \<times> nat" where
  "retryFrom body attempt =
     (if attempt \<le> MAX_RETRIES then
        (case body attempt of
           Inr r \<Rightarrow> (Inr r, attempt)
         | Inl error \<Rightarrow>
             if attempt = MAX_RETRIES
             then (Inl (Error (if message error \<noteq> [] then message error
                               else ''Failed to analyze content'')), attempt)
             else retryFrom body (attempt + 1))
      else (Inl (Error ''Analysis failed''), attempt - 1))"
  by pat_completeness auto
termination
  by (relation "measure (\<lambda>(body, attempt). MAX_RETRIES + 1 - attempt)") auto

text \<open>
  \<open>generate attempt\<close> is the outcome of the call of the model in that attempt: an exception,
  or the text of the response. \<open>attempt_outcome\<close> is the outcome of the whole \<^verbatim>\<open>try\<close> block.
\<close>

definition attempt_outcome ::
  "(nat \<Rightarrow> exn + string option) \<Rightarrow> (string \<Rightarrow> exn + json) \<Rightarrow> (json \<Rightarrow> string)
     \<Rightarrow> nat \<Rightarrow> exn + analysis_result" where
  "attempt_outcome generate parse str attempt =
     (case generate attempt of
        Inl e \<Rightarrow> Inl e
      | Inr responseText \<Rightarrow> processResponse parse str responseText)"

definition analyzeLectureContent ::
  "(nat \<Rightarrow> exn + string option) \<Rightarrow> (string \<Rightarrow> exn + json) \<Rightarrow> (json \<Rightarrow> string)
     \<Rightarrow> (exn + analysis_result) \<times> nat" where
  "analyzeLectureContent generate parse str = retryFrom (attempt_outcome generate parse str) 1"

text \<open>What fallbackExtraction returns when none of its expressions matches.\<close>

definition no_match_analysis :: json where
  "no_match_analysis =
     JObj [(''title'', JStr ''Untitled Analysis''),
           (''summary'', JStr ''Summary unavailable.''),
           (''keyPoints'', JArr [JStr ''Analysis completed partially.'']),
           (''flashcards'', JArr []),
           (''quizzes'', JArr [])]"


section \<open>Moving a material between subjects\<close>

lemma findSource_SomeD:
  "findSource mid prev = Some (m, sid) \<Longrightarrow>
     \<exists>i < length prev. subject_id (prev ! i) = sid \<and> m \<in> set (materials (prev ! i))
        \<and> material_id m = mid \<and> (\<forall>k < i. \<forall>x \<in> set (materials (prev ! k)). material_id x \<noteq> mid)"
proof (induction prev)
  case Nil
  then show ?case by simp
next
  case (Cons s ss)
  show ?case
  proof (cases "find (\<lambda>x. material_id x = mid) (materials s)")
    case None
    with Cons.prems have "findSource mid ss = Some (m, sid)" by simp
    from Cons.IH[OF this] obtain i where i: "i < length ss" "subject_id (ss ! i) = sid"
      "m \<in> set (materials (ss ! i))" "material_id m = mid"
      "\<forall>k < i. \<forall>x \<in> set (materials (ss ! k)). material_id x \<noteq> mid" by blast
    from None have no: "\<forall>x \<in> set (materials s). material_id x \<noteq> mid"
      by (simp add: find_None_iff)
    have "\<forall>k < Suc i. \<forall>x \<in> set (materials ((s # ss) ! k)). material_id x \<noteq> mid"
      using i(5) no by (auto simp: nth_Cons split: nat.splits)
    with i show ?thesis by (intro exI[of _ "Suc i"]) simp
  next
    case (Some found)
    with Cons.prems have eq: "found = m" "subject_id s = sid" by simp_all
    from Some have "found \<in> set (materials s)" "material_id found = mid"
      by (auto simp: find_Some_iff)
    with eq show ?thesis by (intro exI[of _ 0]) simp
  qed
qed

lemma distinct_ids_nth:
  "distinct (map g xs) \<Longrightarrow> i < length xs \<Longrightarrow> k < length xs \<Longrightarrow> g (xs ! i) = g (xs ! k) \<Longrightarrow> i = k"
  using nth_eq_iff_index_eq[of "map g xs" i k] by simp

lemma map_two_updates:
  assumes d: "distinct (map g xs)" and i: "i < length xs" and j: "j < length xs"
    and gi: "g (xs ! i) = a" and gj: "g (xs ! j) = b" and ab: "a \<noteq> b"
  shows "map (\<lambda>x. if g x = a then f x else if g x = b then h x else x) xs
           = xs[i := f (xs ! i), j := h (xs ! j)]"
proof (rule nth_equalityI)
  show "length (map (\<lambda>x. if g x = a then f x else if g x = b then h x else x) xs)
          = length (xs[i := f (xs ! i), j := h (xs ! j)])" by simp
next
  fix k assume "k < length (map (\<lambda>x. if g x = a then f x else if g x = b then h x else x) xs)"
  then have k: "k < length xs" by simp
  have ij: "i \<noteq> j" using gi gj ab by auto
  have ka: "g (xs ! k) = a \<longleftrightarrow> k = i"
    using distinct_ids_nth[OF d k i] gi by auto
  have kb: "g (xs ! k) = b \<longleftrightarrow> k = j"
    using distinct_ids_nth[OF d k j] gj by auto
  show "map (\<lambda>x. if g x = a then f x else if g x = b then h x else x) xs ! k
          = xs[i := f (xs ! i), j := h (xs ! j)] ! k"
    using k i j ij ka kb ab by (auto simp: nth_list_update)
qed

lemma occurrences_update:
  "i < length xs \<Longrightarrow>
     occurrences mid (xs[i := y]) + length (filter (\<lambda>m. material_id m = mid) (materials (xs ! i)))
       = occurrences mid xs + length (filter (\<lambda>m. material_id m = mid) (materials y))"
proof (induction xs arbitrary: i)
  case Nil
  then show ?case by simp
next
  case (Cons x xs)
  show ?case
  proof (cases i)
    case 0
    then show ?thesis by (simp add: occurrences_def)
  next
    case (Suc k)
    with Cons.prems have "k < length xs" by simp
    from Cons.IH[OF this] Suc show ?thesis by (simp add: occurrences_def)
  qed
qed

lemma total_update:
  "i < length xs \<Longrightarrow>
     total_materials (xs[i := y]) + length (materials (xs ! i))
       = total_materials xs + length (materials y)"
proof (induction xs arbitrary: i)
  case Nil
  then show ?case by simp
next
  case (Cons x xs)
  show ?case
  proof (cases i)
    case 0
    then show ?thesis by (simp add: total_materials_def)
  next
    case (Suc k)
    with Cons.prems have "k < length xs" by simp
    from Cons.IH[OF this] Suc show ?thesis by (simp add: total_materials_def)
  qed
qed

lemma occurrences_zero_nth:
  "occurrences mid xs = 0 \<Longrightarrow> k < length xs \<Longrightarrow> x \<in> set (materials (xs ! k)) \<Longrightarrow> material_id x \<noteq> mid"
  by (auto simp: occurrences_def filter_empty_conv)

lemma filter_id_pos:
  "m \<in> set ms \<Longrightarrow> material_id m = mid \<Longrightarrow> 0 < length (filter (\<lambda>x. material_id x = mid) ms)"
  by (auto simp: filter_empty_conv)

lemma unique_elsewhere:
  assumes one: "occurrences mid xs = 1" and i: "i < length xs"
    and m: "m \<in> set (materials (xs ! i))" "material_id m = mid"
    and k: "k < length xs" "k \<noteq> i" and x: "x \<in> set (materials (xs ! k))"
  shows "material_id x \<noteq> mid"
proof -
  let ?y = "(xs ! i)\<lparr>materials := []\<rparr>"
  have "occurrences mid (xs[i := ?y]) + length (filter (\<lambda>m. material_id m = mid) (materials (xs ! i)))
          = occurrences mid xs + 0"
    using occurrences_update[OF i, of mid ?y] by simp
  moreover have "0 < length (filter (\<lambda>x. material_id x = mid) (materials (xs ! i)))"
    using filter_id_pos[OF m] .
  ultimately have z: "occurrences mid (xs[i := ?y]) = 0" using one by linarith
  have "k < length (xs[i := ?y])" using k by simp
  moreover have "x \<in> set (materials (xs[i := ?y] ! k))" using k x by simp
  ultimately show ?thesis using occurrences_zero_nth[OF z] by blast
qed

lemma unique_source_count:
  assumes one: "occurrences mid xs = 1" and i: "i < length xs"
    and m: "m \<in> set (materials (xs ! i))" "material_id m = mid"
  shows "length (filter (\<lambda>x. material_id x = mid) (materials (xs ! i))) = 1"
proof -
  have "length (filter (\<lambda>m. material_id m = mid) (materials (xs ! i))) \<le> occurrences mid xs"
    using occurrences_update[OF i, of mid "(xs ! i)\<lparr>materials := []\<rparr>"] by simp
  with filter_id_pos[OF m] one show ?thesis by linarith
qed

lemma map_one_update:
  assumes i: "i < length xs" and other: "\<And>k. k < length xs \<Longrightarrow> k \<noteq> i \<Longrightarrow> f (xs ! k) = xs ! k"
  shows "map f xs = xs[i := f (xs ! i)]"
proof (rule nth_equalityI)
  show "length (map f xs) = length (xs[i := f (xs ! i)])" by simp
next
  fix k assume "k < length (map f xs)"
  then have k: "k < length xs" by simp
  show "map f xs ! k = xs[i := f (xs ! i)] ! k"
    using k i other[OF k] by (cases "k = i") (simp_all)
qed

lemma filter_neq_id:
  "(\<And>x. x \<in> set ms \<Longrightarrow> material_id x \<noteq> mid) \<Longrightarrow> filter (\<lambda>x. material_id x \<noteq> mid) ms = ms"
  by (simp add: filter_id_conv)

lemma length_filter_split:
  "length (filter (\<lambda>x. material_id x \<noteq> mid) ms) + length (filter (\<lambda>x. material_id x = mid) ms) = length ms"
  using sum_length_filter_compl[of "\<lambda>x. material_id x = mid" ms] by simp

lemma move_from_source:
  assumes src: "findSource mid prev = Some (m, sid)"
  shows "handleMoveMaterial mid sid prev = prev \<and>
    (sid \<noteq> [] \<and> tid \<noteq> sid \<and> distinct (map subject_id prev) \<and> tid \<in> set (map subject_id prev) \<longrightarrow>
       (\<exists>i j. i < length prev \<and> j < length prev \<and> i \<noteq> j \<and>
          subject_id (prev ! i) = sid \<and> subject_id (prev ! j) = tid \<and>
          m \<in> set (materials (prev ! i)) \<and> material_id m = mid \<and>
          handleMoveMaterial mid tid prev =
            prev[i := (prev ! i)\<lparr>materials := filter (\<lambda>x. material_id x \<noteq> mid) (materials (prev ! i))\<rparr>,
                 j := (prev ! j)\<lparr>materials := m # materials (prev ! j)\<rparr>]) \<and>
       (occurrences mid prev = 1 \<longrightarrow> occurrences mid (handleMoveMaterial mid tid prev) = 1))"
proof (intro conjI impI)
  show "handleMoveMaterial mid sid prev = prev"
    using src by (simp add: handleMoveMaterial_def)
next
  assume h: "sid \<noteq> [] \<and> tid \<noteq> sid \<and> distinct (map subject_id prev) \<and> tid \<in> set (map subject_id prev)"
  from findSource_SomeD[OF src] obtain i where i: "i < length prev" "subject_id (prev ! i) = sid"
    "m \<in> set (materials (prev ! i))" "material_id m = mid" by blast
  from h obtain j where j: "j < length prev" "subject_id (prev ! j) = tid"
    by (auto simp: in_set_conv_nth)
  have ij: "i \<noteq> j" using i j h by auto
  let ?f = "\<lambda>s::'a Subject. s\<lparr>materials := filter (\<lambda>x. material_id x \<noteq> mid) (materials s)\<rparr>"
  let ?h = "\<lambda>s::'a Subject. s\<lparr>materials := m # materials s\<rparr>"
  have "handleMoveMaterial mid tid prev =
          map (\<lambda>x. if subject_id x = sid then ?f x else if subject_id x = tid then ?h x else x) prev"
    using src h by (auto simp: handleMoveMaterial_def)
  also have "\<dots> = prev[i := ?f (prev ! i), j := ?h (prev ! j)]"
    using h i j by (intro map_two_updates) auto
  finally have eq: "handleMoveMaterial mid tid prev = prev[i := ?f (prev ! i), j := ?h (prev ! j)]" .
  show "\<exists>i j. i < length prev \<and> j < length prev \<and> i \<noteq> j \<and>
          subject_id (prev ! i) = sid \<and> subject_id (prev ! j) = tid \<and>
          m \<in> set (materials (prev ! i)) \<and> material_id m = mid \<and>
          handleMoveMaterial mid tid prev =
            prev[i := (prev ! i)\<lparr>materials := filter (\<lambda>x. material_id x \<noteq> mid) (materials (prev ! i))\<rparr>,
                 j := (prev ! j)\<lparr>materials := m # materials (prev ! j)\<rparr>]"
    using i j ij eq by blast
  show "occurrences mid (handleMoveMaterial mid tid prev) = 1" if one: "occurrences mid prev = 1"
  proof -
    have src1: "length (filter (\<lambda>x. material_id x = mid) (materials (prev ! i))) = 1"
      using unique_source_count[OF one i(1) i(3) i(4)] .
    have tgt0: "length (filter (\<lambda>x. material_id x = mid) (materials (prev ! j))) = 0"
      using unique_elsewhere[OF one i(1) i(3) i(4) j(1)] ij by (auto simp: filter_empty_conv)
    let ?mid = "prev[i := ?f (prev ! i)]"
    have a: "occurrences mid ?mid + 1 = 1 + 0"
      using occurrences_update[OF i(1), of mid "?f (prev ! i)"] src1 one
      by (simp add: filter_empty_conv)
    have jm: "j < length ?mid" using j by simp
    have "occurrences mid (?mid[j := ?h (prev ! j)]) + 0 = occurrences mid ?mid + 1"
      using occurrences_update[OF jm, of mid "?h (prev ! j)"] ij tgt0 i(4) by simp
    with a eq show ?thesis by simp
  qed
qed

lemma findSource_exists:
  "i < length prev \<Longrightarrow> x \<in> set (materials (prev ! i)) \<Longrightarrow> material_id x = mid \<Longrightarrow>
     \<exists>r. findSource mid prev = Some r"
proof (induction prev arbitrary: i)
  case Nil
  then show ?case by simp
next
  case (Cons s ss)
  show ?case
  proof (cases "find (\<lambda>y. material_id y = mid) (materials s)")
    case (Some found)
    then show ?thesis by simp
  next
    case None
    then have no: "\<forall>y \<in> set (materials s). material_id y \<noteq> mid" by (simp add: find_None_iff)
    have "i \<noteq> 0" using no Cons.prems by (cases i) auto
    then obtain k where k: "i = Suc k" by (cases i) simp_all
    with Cons.prems have "k < length ss" "x \<in> set (materials (ss ! k))" by simp_all
    from Cons.IH[OF this Cons.prems(3)] None show ?thesis by simp
  qed
qed

lemma filter_single:
  assumes "length (filter P xs) = 1" "a \<in> set xs" "P a" "b \<in> set xs" "P b"
  shows "a = b"
proof -
  from assms(1) obtain c where c: "filter P xs = [c]"
    by (cases "filter P xs") simp_all
  have "a \<in> set (filter P xs)" "b \<in> set (filter P xs)" using assms by simp_all
  then show ?thesis unfolding c by simp
qed

lemma holder_is_source:
  assumes one: "occurrences (material_id m) prev = 1"
    and i: "i < length prev" and m: "m \<in> set (materials (prev ! i))"
  shows "findSource (material_id m) prev = Some (m, subject_id (prev ! i))"
proof -
  from findSource_exists[OF i m refl] obtain m' sid' where
    f: "findSource (material_id m) prev = Some (m', sid')" by (cases) auto
  from findSource_SomeD[OF f] obtain i' where i': "i' < length prev" "subject_id (prev ! i') = sid'"
    "m' \<in> set (materials (prev ! i'))" "material_id m' = material_id m" by blast
  have same: "i' = i"
  proof (rule ccontr)
    assume "i' \<noteq> i"
    from unique_elsewhere[OF one i m refl i'(1) this i'(3)] i'(4) show False by simp
  qed
  have "length (filter (\<lambda>x. material_id x = material_id m) (materials (prev ! i))) = 1"
    using unique_source_count[OF one i m refl] .
  from filter_single[OF this] i'(3,4) m same have "m' = m" by blast
  with f i'(2) same show ?thesis by simp
qed

text \<open>
  Claim C7, as the code has it. Take a state in which the id of a material occurs exactly
  once, so that one subject holds it. Moving the material to that subject leaves the state
  as it is. When moreover the subject ids are pairwise distinct and the holder's id is not
  empty, moving it to any other subject of the list rewrites exactly two entries: the holder
  loses the material (its list is one shorter and no longer has it) and the target, which
  did not have it, gets it at the head of its list; the id still occurs exactly once.
\<close>

theorem move_material_transfer:
  assumes one: "occurrences (material_id m) prev = 1"
    and i: "i < length prev" and m: "m \<in> set (materials (prev ! i))"
  shows "handleMoveMaterial (material_id m) (subject_id (prev ! i)) prev = prev \<and>
    (\<forall>j. distinct (map subject_id prev) \<and> subject_id (prev ! i) \<noteq> [] \<and> j < length prev \<and> j \<noteq> i \<longrightarrow>
       handleMoveMaterial (material_id m) (subject_id (prev ! j)) prev =
         prev[i := (prev ! i)\<lparr>materials :=
                     filter (\<lambda>x. material_id x \<noteq> material_id m) (materials (prev ! i))\<rparr>,
              j := (prev ! j)\<lparr>materials := m # materials (prev ! j)\<rparr>] \<and>
       m \<notin> set (filter (\<lambda>x. material_id x \<noteq> material_id m) (materials (prev ! i))) \<and>
       length (filter (\<lambda>x. material_id x \<noteq> material_id m) (materials (prev ! i))) + 1
         = length (materials (prev ! i)) \<and>
       m \<notin> set (materials (prev ! j)) \<and>
       occurrences (material_id m) (handleMoveMaterial (material_id m) (subject_id (prev ! j)) prev) = 1)"
proof (intro conjI allI impI)
  let ?mid = "material_id m" and ?sid = "subject_id (prev ! i)"
  have src: "findSource ?mid prev = Some (m, ?sid)" using holder_is_source[OF one i m] .
  show "handleMoveMaterial ?mid ?sid prev = prev"
    using move_from_source[OF src] by blast
  fix j
  assume h: "distinct (map subject_id prev) \<and> ?sid \<noteq> [] \<and> j < length prev \<and> j \<noteq> i"
  let ?tid = "subject_id (prev ! j)"
  have ne: "?tid \<noteq> ?sid" using distinct_ids_nth[of subject_id prev j i] h i by auto
  have mem: "?tid \<in> set (map subject_id prev)" using h by simp
  from move_from_source[OF src, of ?tid] h ne mem one
  obtain i' j' where p: "i' < length prev" "j' < length prev" "subject_id (prev ! i') = ?sid"
      "subject_id (prev ! j') = ?tid"
      "handleMoveMaterial ?mid ?tid prev =
         prev[i' := (prev ! i')\<lparr>materials := filter (\<lambda>x. material_id x \<noteq> ?mid) (materials (prev ! i'))\<rparr>,
              j' := (prev ! j')\<lparr>materials := m # materials (prev ! j')\<rparr>]"
    and occ: "occurrences ?mid (handleMoveMaterial ?mid ?tid prev) = 1"
    by blast
  have "i' = i" using distinct_ids_nth[of subject_id prev i' i] h p(1,3) i by blast
  moreover have "j' = j" using distinct_ids_nth[of subject_id prev j' j] h p(2,4) by blast
  ultimately show "handleMoveMaterial ?mid ?tid prev =
         prev[i := (prev ! i)\<lparr>materials := filter (\<lambda>x. material_id x \<noteq> ?mid) (materials (prev ! i))\<rparr>,
              j := (prev ! j)\<lparr>materials := m # materials (prev ! j)\<rparr>]"
    using p(5) by simp
  show "m \<notin> set (filter (\<lambda>x. material_id x \<noteq> ?mid) (materials (prev ! i)))" by simp
  show "length (filter (\<lambda>x. material_id x \<noteq> ?mid) (materials (prev ! i))) + 1
          = length (materials (prev ! i))"
    using length_filter_split[of ?mid "materials (prev ! i)"] unique_source_count[OF one i m refl]
    by simp
  show "m \<notin> set (materials (prev ! j))"
  proof
    assume "m \<in> set (materials (prev ! j))"
    from unique_elsewhere[OF one i m refl _ _ this] h show False by simp
  qed
  show "occurrences ?mid (handleMoveMaterial ?mid ?tid prev) = 1" by (rule occ)
qed

theorem move_material_transfer_witness:
  "occurrences ''m1'' [subj ''1'' [mat1], subj ''2'' []] = 1 \<and>
   distinct (map subject_id [subj ''1'' [mat1], subj ''2'' []]) \<and>
   handleMoveMaterial ''m1'' ''1'' [subj ''1'' [mat1], subj ''2'' []] = [subj ''1'' [mat1], subj ''2'' []] \<and>
   handleMoveMaterial ''m1'' ''2'' [subj ''1'' [mat1], subj ''2'' []] = [subj ''1'' [], subj ''2'' [mat1]]"
proof -
  have id: "material_id mat1 = ''m1''" by (simp add: mat1_def)
  have one: "occurrences (material_id mat1) [subj ''1'' [mat1], subj ''2'' []] = 1"
    by (simp add: occurrences_def subj_def mat1_def)
  have i: "0 < length [subj ''1'' [mat1], subj ''2'' []]" by simp
  have m: "mat1 \<in> set (materials ([subj ''1'' [mat1], subj ''2'' []] ! 0))" by (simp add: subj_def)
  have d: "distinct (map subject_id [subj ''1'' [mat1], subj ''2'' []])" by (simp add: subj_def)
  have pre: "distinct (map subject_id [subj ''1'' [mat1], subj ''2'' []]) \<and>
             subject_id ([subj ''1'' [mat1], subj ''2'' []] ! 0) \<noteq> [] \<and>
             (1::nat) < length [subj ''1'' [mat1], subj ''2'' []] \<and> (1::nat) \<noteq> 0"
    by (simp add: subj_def)
  note t = move_material_transfer[OF one i m]
  from t have a: "handleMoveMaterial (material_id mat1)
                    (subject_id ([subj ''1'' [mat1], subj ''2'' []] ! 0)) [subj ''1'' [mat1], subj ''2'' []]
                  = [subj ''1'' [mat1], subj ''2'' []]" by blast
  from t pre have b: "handleMoveMaterial (material_id mat1)
                    (subject_id ([subj ''1'' [mat1], subj ''2'' []] ! 1)) [subj ''1'' [mat1], subj ''2'' []]
      = [subj ''1'' [mat1], subj ''2'' []]
          [0 := ([subj ''1'' [mat1], subj ''2'' []] ! 0)\<lparr>materials :=
                  filter (\<lambda>x. material_id x \<noteq> material_id mat1)
                    (materials ([subj ''1'' [mat1], subj ''2'' []] ! 0))\<rparr>,
           1 := ([subj ''1'' [mat1], subj ''2'' []] ! 1)\<lparr>materials :=
                  mat1 # materials ([subj ''1'' [mat1], subj ''2'' []] ! 1)\<rparr>]"
    by blast
  have a': "handleMoveMaterial ''m1'' ''1'' [subj ''1'' [mat1], subj ''2'' []]
              = [subj ''1'' [mat1], subj ''2'' []]"
    using a by (simp add: id subj_def)
  have b': "handleMoveMaterial ''m1'' ''2'' [subj ''1'' [mat1], subj ''2'' []]
              = [subj ''1'' [], subj ''2'' [mat1]]"
    using b by (simp add: id subj_def)
  from one d a' b' show ?thesis by (simp add: id)
qed

text \<open>
  The statement of C7 over every state fails in three ways: a holder with the empty id is
  treated as not found; two subjects that share the target id both receive the material;
  and when two subjects hold the id, moving to the second of them is no no-op: the material
  leaves the first and the second has it twice.
\<close>

theorem move_material_counterexample:
  "handleMoveMaterial ''m1'' ''2'' [subj '''' [mat1], subj ''2'' []] = [subj '''' [mat1], subj ''2'' []] \<and>
   handleMoveMaterial ''m1'' ''2'' [subj ''1'' [mat1], subj ''2'' [], subj ''2'' []]
     = [subj ''1'' [], subj ''2'' [mat1], subj ''2'' [mat1]] \<and>
   handleMoveMaterial ''m1'' ''2'' [subj ''1'' [mat1], subj ''2'' [mat1]]
     = [subj ''1'' [], subj ''2'' [mat1, mat1]]"
  by (simp add: handleMoveMaterial_def subj_def mat1_def)

text \<open>
  Claim C10, as the code has it. When the target id names no subject, the source subject has
  a non-empty id and the material id occurs once in the state, the move rewrites the source
  entry alone: the material is gone from the state, which holds one material less, and
  every other subject is as before.
\<close>

theorem move_to_missing_subject:
  assumes src: "findSource mid prev = Some (m, sid)"
    and ne: "sid \<noteq> []"
    and missing: "tid \<notin> set (map subject_id prev)"
    and one: "occurrences mid prev = 1"
  shows "\<exists>i < length prev. subject_id (prev ! i) = sid \<and> m \<in> set (materials (prev ! i)) \<and>
           handleMoveMaterial mid tid prev =
             prev[i := (prev ! i)\<lparr>materials := filter (\<lambda>x. material_id x \<noteq> mid) (materials (prev ! i))\<rparr>] \<and>
           occurrences mid (handleMoveMaterial mid tid prev) = 0 \<and>
           total_materials (handleMoveMaterial mid tid prev) + 1 = total_materials prev"
proof -
  from findSource_SomeD[OF src] obtain i where i: "i < length prev" "subject_id (prev ! i) = sid"
    "m \<in> set (materials (prev ! i))" "material_id m = mid" by blast
  let ?f = "\<lambda>s::'a Subject. s\<lparr>materials := filter (\<lambda>x. material_id x \<noteq> mid) (materials s)\<rparr>"
  let ?g = "\<lambda>x::'a Subject. if subject_id x = sid then ?f x
              else if subject_id x = tid then x\<lparr>materials := m # materials x\<rparr> else x"
  have st: "sid \<noteq> tid" using i missing by auto
  have "handleMoveMaterial mid tid prev = map ?g prev"
    using src ne st by (simp add: handleMoveMaterial_def)
  also have "\<dots> = prev[i := ?g (prev ! i)]"
  proof (rule map_one_update[OF i(1)])
    fix k assume k: "k < length prev" "k \<noteq> i"
    have nt: "subject_id (prev ! k) \<noteq> tid" using missing k by auto
    have "filter (\<lambda>x. material_id x \<noteq> mid) (materials (prev ! k)) = materials (prev ! k)"
      using unique_elsewhere[OF one i(1) i(3) i(4) k] by (intro filter_neq_id) blast
    then show "?g (prev ! k) = prev ! k" using nt by simp
  qed
  finally have eq: "handleMoveMaterial mid tid prev = prev[i := ?f (prev ! i)]"
    using i by simp
  have src1: "length (filter (\<lambda>x. material_id x = mid) (materials (prev ! i))) = 1"
    using unique_source_count[OF one i(1) i(3) i(4)] .
  have occ: "occurrences mid (prev[i := ?f (prev ! i)]) = 0"
    using occurrences_update[OF i(1), of mid "?f (prev ! i)"] src1 one
    by (simp add: filter_empty_conv)
  have "total_materials (prev[i := ?f (prev ! i)]) + length (materials (prev ! i))
          = total_materials prev + length (filter (\<lambda>x. material_id x \<noteq> mid) (materials (prev ! i)))"
    using total_update[OF i(1), of "?f (prev ! i)"] by simp
  with length_filter_split[of mid "materials (prev ! i)"] src1
  have tot: "total_materials (prev[i := ?f (prev ! i)]) + 1 = total_materials prev" by linarith
  show ?thesis using i eq occ tot by (intro exI[of _ i]) simp
qed

theorem move_to_missing_subject_witness:
  "findSource ''m1'' [subj ''1'' [mat1], subj ''2'' []] = Some (mat1, ''1'') \<and>
   ''9'' \<notin> set (map subject_id [subj ''1'' [mat1], subj ''2'' []]) \<and>
   occurrences ''m1'' [subj ''1'' [mat1], subj ''2'' []] = 1 \<and>
   occurrences ''m1'' (handleMoveMaterial ''m1'' ''9'' [subj ''1'' [mat1], subj ''2'' []]) = 0 \<and>
   total_materials (handleMoveMaterial ''m1'' ''9'' [subj ''1'' [mat1], subj ''2'' []]) + 1
     = total_materials [subj ''1'' [mat1], subj ''2'' []]"
proof -
  have src: "findSource ''m1'' [subj ''1'' [mat1], subj ''2'' []] = Some (mat1, ''1'')"
    by (simp add: subj_def mat1_def)
  have ne: "''1'' \<noteq> []" by simp
  have missing: "''9'' \<notin> set (map subject_id [subj ''1'' [mat1], subj ''2'' []])"
    by (simp add: subj_def)
  have one: "occurrences ''m1'' [subj ''1'' [mat1], subj ''2'' []] = 1"
    by (simp add: occurrences_def subj_def mat1_def)
  from move_to_missing_subject[OF src ne missing one] src missing one show ?thesis by blast
qed

text \<open>
  The statement of C10 fails for a source subject with the empty id (nothing is removed) and
  for a source that holds the id twice (two materials are removed).
\<close>

theorem move_to_missing_subject_counterexample:
  "handleMoveMaterial ''m1'' ''9'' [subj '''' [mat1]] = [subj '''' [mat1]] \<and>
   total_materials [subj ''1'' [mat1, mat1]] = 2 \<and>
   total_materials (handleMoveMaterial ''m1'' ''9'' [subj ''1'' [mat1, mat1]]) = 0"
  by (simp add: handleMoveMaterial_def total_materials_def subj_def mat1_def)

section \<open>Sanitised quizzes and the quiz view\<close>

lemma mapM_Inr:
  "mapM f xs = Inr ys \<Longrightarrow> length ys = length xs \<and> (\<forall>i < length xs. f (xs ! i) = Inr (ys ! i))"
proof (induction xs arbitrary: ys)
  case Nil
  then show ?case by simp
next
  case (Cons x xs)
  from Cons.prems obtain y ys' where y: "f x = Inr y" and ys': "mapM f xs = Inr ys'" and eq: "ys = y # ys'"
    by (auto split: sum.splits)
  from Cons.IH[OF ys'] have ih: "length ys' = length xs" "\<forall>i < length xs. f (xs ! i) = Inr (ys' ! i)"
    by simp_all
  show ?case using y eq ih by (auto simp: nth_Cons split: nat.splits)
qed

lemma mapM_total:
  "(\<And>x. x \<in> set xs \<Longrightarrow> \<exists>y. f x = Inr y) \<Longrightarrow> \<exists>ys. mapM f xs = Inr ys"
proof (induction xs)
  case Nil
  then show ?case by simp
next
  case (Cons x xs)
  from Cons.prems[of x] obtain y where y: "f x = Inr y" by auto
  from Cons.IH Cons.prems obtain ys where "mapM f xs = Inr ys" by auto
  with y show ?case by simp
qed

lemma get_total: "q \<noteq> JNull \<Longrightarrow> q \<noteq> JUndefined \<Longrightarrow> \<exists>v. get q k = Inr v"
  by (cases q) simp_all

lemma sanitizeQuiz_total:
  assumes "q \<noteq> JNull" "q \<noteq> JUndefined"
  shows "\<exists>r. sanitizeQuiz q = Inr r"
proof -
  from get_total[OF assms] obtain a b c d where
    "get q ''question'' = Inr a" "get q ''options'' = Inr b"
    "get q ''correctAnswerIndex'' = Inr c" "get q ''explanation'' = Inr d" by metis
  then show ?thesis by (simp add: sanitizeQuiz_def)
qed

lemma sanitizeQuiz_fields:
  assumes "sanitizeQuiz q = Inr r"
  shows "\<exists>qu os ci ex. get q ''question'' = Inr qu \<and> get q ''options'' = Inr os \<and>
           get q ''correctAnswerIndex'' = Inr ci \<and> get q ''explanation'' = Inr ex \<and>
           question r = js_or qu (JStr ''Untitled Question'') \<and>
           options r = (case os of
                          JArr xs \<Rightarrow> if length xs \<ge> 2 then xs else [JStr ''True'', JStr ''False'']
                        | _ \<Rightarrow> [JStr ''True'', JStr ''False'']) \<and>
           correctAnswerIndex r = (case ci of JNum n \<Rightarrow> n | _ \<Rightarrow> Fin 0) \<and>
           explanation r = js_or ex (JStr ''No explanation provided.'')"
proof -
  from assms obtain qu where qu: "get q ''question'' = Inr qu"
    unfolding sanitizeQuiz_def by (cases "get q ''question''") simp_all
  from assms qu obtain os where os: "get q ''options'' = Inr os"
    unfolding sanitizeQuiz_def by (cases "get q ''options''") simp_all
  from assms qu os obtain ci where ci: "get q ''correctAnswerIndex'' = Inr ci"
    unfolding sanitizeQuiz_def by (cases "get q ''correctAnswerIndex''") simp_all
  from assms qu os ci obtain ex where ex: "get q ''explanation'' = Inr ex"
    unfolding sanitizeQuiz_def by (cases "get q ''explanation''") simp_all
  from assms have "r = \<lparr>question = js_or qu (JStr ''Untitled Question''),
           options = (case os of
                        JArr xs \<Rightarrow> if length xs \<ge> 2 then xs else [JStr ''True'', JStr ''False'']
                      | _ \<Rightarrow> [JStr ''True'', JStr ''False'']),
           correctAnswerIndex = (case ci of JNum n \<Rightarrow> n | _ \<Rightarrow> Fin 0),
           explanation = js_or ex (JStr ''No explanation provided.'')\<rparr>"
    unfolding sanitizeQuiz_def qu os ci ex by simp
  then have "question r = js_or qu (JStr ''Untitled Question'')"
    "options r = (case os of
                        JArr xs \<Rightarrow> if length xs \<ge> 2 then xs else [JStr ''True'', JStr ''False'']
                      | _ \<Rightarrow> [JStr ''True'', JStr ''False''])"
    "correctAnswerIndex r = (case ci of JNum n \<Rightarrow> n | _ \<Rightarrow> Fin 0)"
    "explanation r = js_or ex (JStr ''No explanation provided.'')"
    by simp_all
  with qu os ci ex show ?thesis by blast
qed

lemma sanitizeQuiz_options_ge2: "sanitizeQuiz q = Inr r \<Longrightarrow> 2 \<le> length (options r)"
proof -
  assume "sanitizeQuiz q = Inr r"
  from sanitizeQuiz_fields[OF this] obtain os where
    o: "options r = (case os of
                       JArr xs \<Rightarrow> if length xs \<ge> 2 then xs else [JStr ''True'', JStr ''False'']
                     | _ \<Rightarrow> [JStr ''True'', JStr ''False''])" by blast
  show ?thesis unfolding o by (cases os) simp_all
qed

lemma sanitizeQuizzes_Inr:
  assumes "sanitizeQuizzes qs = Inr out"
  shows "mapM sanitizeQuiz qs = Inr out"
proof -
  from assms obtain ys where ys: "mapM sanitizeQuiz qs = Inr ys"
    and out: "out = filter (\<lambda>q. length (options q) > 0) ys"
    by (auto simp: sanitizeQuizzes_def split: sum.splits)
  from mapM_Inr[OF ys] have "\<forall>y \<in> set ys. 2 \<le> length (options y)"
    by (metis in_set_conv_nth sanitizeQuiz_options_ge2)
  then have "filter (\<lambda>q. length (options q) > 0) ys = ys"
    by (auto simp: filter_id_conv)
  with ys out show ?thesis by simp
qed

lemma getSafeCorrectIndex_range:
  assumes "options q \<noteq> []"
  shows "\<exists>k. getSafeCorrectIndex q = Fin (of_int k) \<and> 0 \<le> k \<and> k < int (length (options q))"
proof -
  let ?n = "length (options q)"
  have n: "0 < ?n" using assms by simp
  have "1 \<le> ?n" using assms by (cases "options q") simp_all
  then have "(1::rat) \<le> of_nat ?n" by (metis of_nat_1 of_nat_le_iff)
  then have m0: "min 0 (of_nat ?n - 1 :: rat) = 0" by simp
  show ?thesis
  proof (cases "correctAnswerIndex q")
    case (Fin r)
    have "getSafeCorrectIndex q = Fin (of_int (min (max 0 \<lfloor>r\<rfloor>) (int ?n - 1)))"
      unfolding getSafeCorrectIndex_def Let_def Fin by simp
    moreover have "0 \<le> min (max 0 \<lfloor>r\<rfloor>) (int ?n - 1)" using n by simp
    moreover have "min (max 0 \<lfloor>r\<rfloor>) (int ?n - 1) < int ?n" by simp
    ultimately show ?thesis by blast
  next
    case PosInf
    have "getSafeCorrectIndex q = Fin (of_int (int ?n - 1))"
      unfolding getSafeCorrectIndex_def Let_def PosInf by simp
    moreover have "0 \<le> int ?n - 1" using n by simp
    moreover have "int ?n - 1 < int ?n" by simp
    ultimately show ?thesis by blast
  next
    case NegInf
    have "getSafeCorrectIndex q = Fin (of_int 0)"
      unfolding getSafeCorrectIndex_def Let_def NegInf using m0 by simp
    then show ?thesis using n by (intro exI[of _ 0]) simp
  next
    case NaN
    have "getSafeCorrectIndex q = Fin (of_int 0)"
      unfolding getSafeCorrectIndex_def Let_def NaN using m0 by simp
    then show ?thesis using n by (intro exI[of _ 0]) simp
  qed
qed

text \<open>
  Claim C1, as the code has it. The pipeline keeps a numeric \<^verbatim>\<open>correctAnswerIndex\<close> as it is
  and replaces any other value by 0; the clamp is applied by the quiz view: for every
  question the pipeline delivers, \<^verbatim>\<open>getSafeCorrectIndex\<close> is an integer between 0 and
  \<^verbatim>\<open>options.length - 1\<close>.
\<close>

theorem correct_index_clamped_at_view:
  assumes "sanitizeQuizzes qs = Inr out"
  shows "length out = length qs \<and>
         (\<forall>i < length qs. \<forall>ci. get (qs ! i) ''correctAnswerIndex'' = Inr ci \<longrightarrow>
            correctAnswerIndex (out ! i) = (case ci of JNum n \<Rightarrow> n | _ \<Rightarrow> Fin 0)) \<and>
         (\<forall>q \<in> set out. \<exists>k. getSafeCorrectIndex q = Fin (of_int k) \<and> 0 \<le> k \<and>
            k \<le> int (length (options q)) - 1)"
proof -
  from sanitizeQuizzes_Inr[OF assms] have m: "mapM sanitizeQuiz qs = Inr out" .
  from mapM_Inr[OF m] have len: "length out = length qs"
    and each: "\<forall>i < length qs. sanitizeQuiz (qs ! i) = Inr (out ! i)" by simp_all
  have a: "\<forall>i < length qs. \<forall>ci. get (qs ! i) ''correctAnswerIndex'' = Inr ci \<longrightarrow>
            correctAnswerIndex (out ! i) = (case ci of JNum n \<Rightarrow> n | _ \<Rightarrow> Fin 0)"
  proof (intro allI impI)
    fix i ci assume i: "i < length qs" and ci: "get (qs ! i) ''correctAnswerIndex'' = Inr ci"
    from each i have "sanitizeQuiz (qs ! i) = Inr (out ! i)" by simp
    from sanitizeQuiz_fields[OF this] ci
    show "correctAnswerIndex (out ! i) = (case ci of JNum n \<Rightarrow> n | _ \<Rightarrow> Fin 0)" by auto
  qed
  have b: "\<forall>q \<in> set out. \<exists>k. getSafeCorrectIndex q = Fin (of_int k) \<and> 0 \<le> k \<and>
            k \<le> int (length (options q)) - 1"
  proof
    fix q assume "q \<in> set out"
    then obtain i where "i < length qs" "out ! i = q" using len by (auto simp: in_set_conv_nth)
    with each have "sanitizeQuiz (qs ! i) = Inr q" by auto
    from sanitizeQuiz_options_ge2[OF this] have "options q \<noteq> []" by auto
    from getSafeCorrectIndex_range[OF this]
    show "\<exists>k. getSafeCorrectIndex q = Fin (of_int k) \<and> 0 \<le> k \<and> k \<le> int (length (options q)) - 1"
      by auto
  qed
  from len a b show ?thesis by blast
qed

theorem correct_index_clamped_at_view_witness:
  "sanitizeQuizzes [quiz_raw (JArr [JStr ''a'', JStr ''b'']) (JNum (Fin 7))]
     = Inr [\<lparr>question = JStr ''Q'', options = [JStr ''a'', JStr ''b''], correctAnswerIndex = Fin 7,
              explanation = JStr ''No explanation provided.''\<rparr>] \<and>
   (\<exists>k. getSafeCorrectIndex \<lparr>question = JStr ''Q'', options = [JStr ''a'', JStr ''b''],
            correctAnswerIndex = Fin 7, explanation = JStr ''No explanation provided.''\<rparr> = Fin (of_int k)
        \<and> 0 \<le> k \<and> k \<le> 1)"
proof -
  have h: "sanitizeQuizzes [quiz_raw (JArr [JStr ''a'', JStr ''b'']) (JNum (Fin 7))]
     = Inr [\<lparr>question = JStr ''Q'', options = [JStr ''a'', JStr ''b''], correctAnswerIndex = Fin 7,
              explanation = JStr ''No explanation provided.''\<rparr>]"
    by (simp add: sanitizeQuizzes_def sanitizeQuiz_def quiz_raw_def)
  from correct_index_clamped_at_view[OF h] h show ?thesis by simp
qed

text \<open>
  The field of the delivered question is not clamped: the index 7 of a question with two
  options comes out of the pipeline as 7.
\<close>

theorem correct_index_counterexample:
  "sanitizeQuizzes [quiz_raw (JArr [JStr ''a'', JStr ''b'']) (JNum (Fin 7))]
     = Inr [\<lparr>question = JStr ''Q'', options = [JStr ''a'', JStr ''b''], correctAnswerIndex = Fin 7,
              explanation = JStr ''No explanation provided.''\<rparr>]"
  by (simp add: sanitizeQuizzes_def sanitizeQuiz_def quiz_raw_def)

text \<open>
  Claim C2. A quiz object whose options list has fewer than two entries is not in the list
  of valid quizzes that the quiz view renders.
\<close>

theorem valid_quizzes_exclude_short:
  "length (options q) < 2 \<Longrightarrow> q \<notin> set (validQuizzes quizzes)"
  by (auto simp: validQuizzes_def)

theorem valid_quizzes_exclude_short_witness:
  "length (options \<lparr>question = JStr ''Q'', options = [JStr ''a''], correctAnswerIndex = Fin 0,
                     explanation = JStr ''E''\<rparr>) < 2 \<and>
   \<lparr>question = JStr ''Q'', options = [JStr ''a''], correctAnswerIndex = Fin 0, explanation = JStr ''E''\<rparr>
     \<notin> set (validQuizzes (Some [\<lparr>question = JStr ''Q'', options = [JStr ''a''],
                                  correctAnswerIndex = Fin 0, explanation = JStr ''E''\<rparr>]))"
proof -
  have h: "length (options \<lparr>question = JStr ''Q'', options = [JStr ''a''], correctAnswerIndex = Fin 0,
                     explanation = JStr ''E''\<rparr>) < 2" by simp
  from valid_quizzes_exclude_short[OF h] h show ?thesis by blast
qed

lemma sanitize_objects:
  assumes "\<forall>q \<in> set qs. q \<noteq> JNull \<and> q \<noteq> JUndefined"
  shows "\<exists>out. sanitizeQuizzes qs = Inr out \<and> length out = length qs \<and>
          (\<forall>i < length qs. \<forall>os ex.
             get (qs ! i) ''options'' = Inr os \<and> get (qs ! i) ''explanation'' = Inr ex \<longrightarrow>
               (\<forall>xs. os = JArr xs \<and> 2 \<le> length xs \<longrightarrow> options (out ! i) = xs) \<and>
               ((\<forall>xs. os = JArr xs \<longrightarrow> length xs < 2) \<longrightarrow>
                   options (out ! i) = [JStr ''True'', JStr ''False'']) \<and>
               (\<not> truthy ex \<longrightarrow> explanation (out ! i) = JStr ''No explanation provided.'') \<and>
               (truthy ex \<longrightarrow> explanation (out ! i) = ex))"
proof -
  have "\<exists>ys. mapM sanitizeQuiz qs = Inr ys"
    using assms by (intro mapM_total sanitizeQuiz_total) auto
  then obtain ys where ys: "mapM sanitizeQuiz qs = Inr ys" by blast
  from mapM_Inr[OF ys] have len: "length ys = length qs"
    and each: "\<forall>i < length qs. sanitizeQuiz (qs ! i) = Inr (ys ! i)" by simp_all
  have "\<forall>y \<in> set ys. 2 \<le> length (options y)"
    using each len by (metis in_set_conv_nth sanitizeQuiz_options_ge2)
  then have "filter (\<lambda>q. length (options q) > 0) ys = ys"
    by (auto simp: filter_id_conv)
  with ys have out: "sanitizeQuizzes qs = Inr ys" by (simp add: sanitizeQuizzes_def)
  have "\<forall>i < length qs. \<forall>os ex.
             get (qs ! i) ''options'' = Inr os \<and> get (qs ! i) ''explanation'' = Inr ex \<longrightarrow>
               (\<forall>xs. os = JArr xs \<and> 2 \<le> length xs \<longrightarrow> options (ys ! i) = xs) \<and>
               ((\<forall>xs. os = JArr xs \<longrightarrow> length xs < 2) \<longrightarrow>
                   options (ys ! i) = [JStr ''True'', JStr ''False'']) \<and>
               (\<not> truthy ex \<longrightarrow> explanation (ys ! i) = JStr ''No explanation provided.'') \<and>
               (truthy ex \<longrightarrow> explanation (ys ! i) = ex)"
  proof (intro allI impI)
    fix i os ex
    assume i: "i < length qs"
      and g: "get (qs ! i) ''options'' = Inr os \<and> get (qs ! i) ''explanation'' = Inr ex"
    from each i have "sanitizeQuiz (qs ! i) = Inr (ys ! i)" by simp
    from sanitizeQuiz_fields[OF this] g
    have o: "options (ys ! i) = (case os of
                          JArr xs \<Rightarrow> if length xs \<ge> 2 then xs else [JStr ''True'', JStr ''False'']
                        | _ \<Rightarrow> [JStr ''True'', JStr ''False''])"
      and e: "explanation (ys ! i) = js_or ex (JStr ''No explanation provided.'')" by auto
    show "(\<forall>xs. os = JArr xs \<and> 2 \<le> length xs \<longrightarrow> options (ys ! i) = xs) \<and>
               ((\<forall>xs. os = JArr xs \<longrightarrow> length xs < 2) \<longrightarrow>
                   options (ys ! i) = [JStr ''True'', JStr ''False'']) \<and>
               (\<not> truthy ex \<longrightarrow> explanation (ys ! i) = JStr ''No explanation provided.'') \<and>
               (truthy ex \<longrightarrow> explanation (ys ! i) = ex)"
      using o e by (cases os) auto
  qed
  with out len show ?thesis by blast
qed

lemma sanitizeQuiz_nullish:
  "q = JNull \<or> q = JUndefined \<Longrightarrow> sanitizeQuiz q = Inl TypeError"
  by (elim disjE) (simp_all add: sanitizeQuiz_def)

lemma sanitizeQuiz_raises:
  assumes "sanitizeQuiz q = Inl e"
  shows "e = TypeError"
proof (cases "q = JNull \<or> q = JUndefined")
  case True
  from sanitizeQuiz_nullish[OF this] assms show ?thesis by simp
next
  case False
  then have "q \<noteq> JNull" "q \<noteq> JUndefined" by simp_all
  from sanitizeQuiz_total[OF this] assms show ?thesis by auto
qed

lemma mapM_raises:
  assumes "x \<in> set xs" "f x = Inl err" and all: "\<And>y e. f y = Inl e \<Longrightarrow> e = E"
  shows "mapM f xs = Inl E"
  using assms(1)
proof (induction xs)
  case Nil
  then show ?case by simp
next
  case (Cons y ys)
  show ?case
  proof (cases "f y")
    case (Inl e)
    with all[OF Inl] show ?thesis by simp
  next
    case (Inr r)
    with assms(2) have "x \<noteq> y" by auto
    with Cons.prems have "x \<in> set ys" by simp
    from Cons.IH[OF this] Inr show ?thesis by simp
  qed
qed

text \<open>
  Claim C6, as the code has it. For a list of quizzes with no entry that is \<^verbatim>\<open>null\<close> or
  \<^verbatim>\<open>undefined\<close> the post-processing returns a list of the same length, entry by entry: an
  \<^verbatim>\<open>options\<close> value that is an array of at least two entries is kept, whatever its entries
  are, and any other value becomes the placeholder \<^verbatim>\<open>["True", "False"]\<close>; a missing or
  otherwise falsy \<^verbatim>\<open>explanation\<close> becomes the placeholder string, any other is kept. When
  some entry is \<^verbatim>\<open>null\<close> or \<^verbatim>\<open>undefined\<close> the post-processing raises a \<^verbatim>\<open>TypeError\<close> and
  delivers no list at all.
\<close>

theorem sanitize_defaults:
  "((\<forall>q \<in> set qs. q \<noteq> JNull \<and> q \<noteq> JUndefined) \<longrightarrow>
      (\<exists>out. sanitizeQuizzes qs = Inr out \<and> length out = length qs \<and>
          (\<forall>i < length qs. \<forall>os ex.
             get (qs ! i) ''options'' = Inr os \<and> get (qs ! i) ''explanation'' = Inr ex \<longrightarrow>
               (\<forall>xs. os = JArr xs \<and> 2 \<le> length xs \<longrightarrow> options (out ! i) = xs) \<and>
               ((\<forall>xs. os = JArr xs \<longrightarrow> length xs < 2) \<longrightarrow>
                   options (out ! i) = [JStr ''True'', JStr ''False'']) \<and>
               (\<not> truthy ex \<longrightarrow> explanation (out ! i) = JStr ''No explanation provided.'') \<and>
               (truthy ex \<longrightarrow> explanation (out ! i) = ex)))) \<and>
   ((\<exists>q \<in> set qs. q = JNull \<or> q = JUndefined) \<longrightarrow> sanitizeQuizzes qs = Inl TypeError)"
proof (intro conjI impI)
  assume "\<forall>q \<in> set qs. q \<noteq> JNull \<and> q \<noteq> JUndefined"
  then show "\<exists>out. sanitizeQuizzes qs = Inr out \<and> length out = length qs \<and>
          (\<forall>i < length qs. \<forall>os ex.
             get (qs ! i) ''options'' = Inr os \<and> get (qs ! i) ''explanation'' = Inr ex \<longrightarrow>
               (\<forall>xs. os = JArr xs \<and> 2 \<le> length xs \<longrightarrow> options (out ! i) = xs) \<and>
               ((\<forall>xs. os = JArr xs \<longrightarrow> length xs < 2) \<longrightarrow>
                   options (out ! i) = [JStr ''True'', JStr ''False'']) \<and>
               (\<not> truthy ex \<longrightarrow> explanation (out ! i) = JStr ''No explanation provided.'') \<and>
               (truthy ex \<longrightarrow> explanation (out ! i) = ex))"
    by (rule sanitize_objects)
next
  assume "\<exists>q \<in> set qs. q = JNull \<or> q = JUndefined"
  then obtain q where q: "q \<in> set qs" "q = JNull \<or> q = JUndefined" by blast
  have "mapM sanitizeQuiz qs = Inl TypeError"
  proof (rule mapM_raises[where f = sanitizeQuiz and x = q and err = TypeError])
    show "q \<in> set qs" by (rule q(1))
    show "sanitizeQuiz q = Inl TypeError" by (rule sanitizeQuiz_nullish[OF q(2)])
    show "\<And>y e. sanitizeQuiz y = Inl e \<Longrightarrow> e = TypeError" by (rule sanitizeQuiz_raises)
  qed
  then show "sanitizeQuizzes qs = Inl TypeError" by (simp add: sanitizeQuizzes_def)
qed

theorem sanitize_defaults_witness:
  "quiz_raw (JStr ''a,b'') JNull \<noteq> JNull \<and> quiz_raw (JStr ''a,b'') JNull \<noteq> JUndefined \<and>
   (\<exists>out. sanitizeQuizzes [quiz_raw (JStr ''a,b'') JNull] = Inr out \<and> length out = 1 \<and>
      options (out ! 0) = [JStr ''True'', JStr ''False''] \<and>
      explanation (out ! 0) = JStr ''No explanation provided.'') \<and>
   sanitizeQuizzes [quiz_raw (JStr ''a,b'') JNull, JNull] = Inl TypeError"
proof -
  note t = sanitize_defaults[of "[quiz_raw (JStr ''a,b'') JNull]"]
  note t2 = sanitize_defaults[of "[quiz_raw (JStr ''a,b'') JNull, JNull]"]
  have h: "\<forall>q \<in> set [quiz_raw (JStr ''a,b'') JNull]. q \<noteq> JNull \<and> q \<noteq> JUndefined"
    by (simp add: quiz_raw_def)
  have g: "get ([quiz_raw (JStr ''a,b'') JNull] ! 0) ''options'' = Inr (JStr ''a,b'') \<and>
           get ([quiz_raw (JStr ''a,b'') JNull] ! 0) ''explanation'' = Inr JUndefined"
    by (simp add: quiz_raw_def)
  from t h obtain out where
    o: "sanitizeQuizzes [quiz_raw (JStr ''a,b'') JNull] = Inr out" "length out = length [quiz_raw (JStr ''a,b'') JNull]"
    and e: "\<forall>i < length [quiz_raw (JStr ''a,b'') JNull]. \<forall>os ex.
             get ([quiz_raw (JStr ''a,b'') JNull] ! i) ''options'' = Inr os \<and>
             get ([quiz_raw (JStr ''a,b'') JNull] ! i) ''explanation'' = Inr ex \<longrightarrow>
               (\<forall>xs. os = JArr xs \<and> 2 \<le> length xs \<longrightarrow> options (out ! i) = xs) \<and>
               ((\<forall>xs. os = JArr xs \<longrightarrow> length xs < 2) \<longrightarrow>
                   options (out ! i) = [JStr ''True'', JStr ''False'']) \<and>
               (\<not> truthy ex \<longrightarrow> explanation (out ! i) = JStr ''No explanation provided.'') \<and>
               (truthy ex \<longrightarrow> explanation (out ! i) = ex)"
    by blast
  have "0 < length [quiz_raw (JStr ''a,b'') JNull]" by simp
  with e g have "((\<forall>xs. JStr ''a,b'' = JArr xs \<longrightarrow> length xs < 2) \<longrightarrow>
                   options (out ! 0) = [JStr ''True'', JStr ''False'']) \<and>
               (\<not> truthy JUndefined \<longrightarrow> explanation (out ! 0) = JStr ''No explanation provided.'')"
    by blast
  then have r: "options (out ! 0) = [JStr ''True'', JStr ''False''] \<and>
      explanation (out ! 0) = JStr ''No explanation provided.''"
    by simp
  have n: "\<exists>q \<in> set [quiz_raw (JStr ''a,b'') JNull, JNull]. q = JNull \<or> q = JUndefined" by simp
  with t2 have f: "sanitizeQuizzes [quiz_raw (JStr ''a,b'') JNull, JNull] = Inl TypeError" by blast
  have "quiz_raw (JStr ''a,b'') JNull \<noteq> JNull \<and> quiz_raw (JStr ''a,b'') JNull \<noteq> JUndefined"
    by (simp add: quiz_raw_def)
  with o r f show ?thesis by auto
qed

text \<open>
  An options array of two numbers is not a list of strings, and it is kept. And beside an
  entry that is \<^verbatim>\<open>null\<close> no placeholder is put in and every question is lost.
\<close>

theorem sanitize_defaults_counterexample:
  "sanitizeQuizzes [quiz_raw (JArr [JNum (Fin 1), JNum (Fin 2)]) (JNum (Fin 0))]
     = Inr [\<lparr>question = JStr ''Q'', options = [JNum (Fin 1), JNum (Fin 2)], correctAnswerIndex = Fin 0,
              explanation = JStr ''No explanation provided.''\<rparr>] \<and>
   sanitizeQuizzes [quiz_raw (JStr ''a,b'') JNull, JNull] = Inl TypeError"
  by (simp add: sanitizeQuizzes_def sanitizeQuiz_def quiz_raw_def)


section \<open>Repairing truncated JSON\<close>

subsection \<open>The scanning loop\<close>

lemma scan_append: "scan (a @ b) = foldl scanStep (scan a) b"
  by (simp add: scan_def)

lemma is_space_chars:
  "is_space c \<Longrightarrow> c \<noteq> dquote \<and> c \<noteq> backslash \<and> c \<noteq> CHR ''{'' \<and> c \<noteq> CHR ''}''
     \<and> c \<noteq> CHR ''['' \<and> c \<noteq> CHR '']'' \<and> c \<noteq> CHR '',''"
  unfolding is_space_def by (elim disjE | simp)+

lemma scanStep_space:
  assumes "is_space c"
  shows "scanStep st c = st\<lparr>escape := False\<rparr>"
  using is_space_chars[OF assms] by (simp add: scanStep_def Let_def)

lemma foldl_space_stack:
  "list_all is_space b \<Longrightarrow> stack (foldl scanStep st b) = stack st"
  by (induction b arbitrary: st) (simp_all add: scanStep_space)

lemma scan_dropWhile_space: "scan (dropWhile is_space s) = scan s"
proof -
  have init: "\<And>c. is_space c \<Longrightarrow>
      scanStep \<lparr>stack = [], inString = False, escape = False\<rparr> c
        = \<lparr>stack = [], inString = False, escape = False\<rparr>"
    by (simp add: scanStep_space)
  have "foldl scanStep \<lparr>stack = [], inString = False, escape = False\<rparr> (dropWhile is_space s)
          = foldl scanStep \<lparr>stack = [], inString = False, escape = False\<rparr> s"
    by (induction s) (simp_all add: init)
  then show ?thesis by (simp add: scan_def)
qed

lemma rtrim_decomp:
  "\<exists>b. s = rev (dropWhile is_space (rev s)) @ b \<and> list_all is_space b"
proof -
  have "rev s = takeWhile is_space (rev s) @ dropWhile is_space (rev s)" by simp
  then have "s = rev (dropWhile is_space (rev s)) @ rev (takeWhile is_space (rev s))"
    by (metis rev_append rev_rev_ident)
  moreover have "list_all is_space (rev (takeWhile is_space (rev s)))"
    by (simp add: list_all_iff) (meson set_takeWhileD)
  ultimately show ?thesis by blast
qed

lemma stack_scan_trim: "stack (scan (trim s)) = stack (scan s)"
proof -
  let ?l = "dropWhile is_space s"
  from rtrim_decomp[of ?l] obtain b where b: "?l = trim s @ b" "list_all is_space b"
    by (auto simp: trim_def)
  have "stack (scan ?l) = stack (foldl scanStep (scan (trim s)) b)"
    using b(1) scan_append by metis
  also have "\<dots> = stack (scan (trim s))" using foldl_space_stack[OF b(2)] .
  finally show ?thesis by (simp add: scan_dropWhile_space)
qed

lemma trim_last_not_space: "trim s \<noteq> [] \<Longrightarrow> \<not> is_space (last (trim s))"
proof -
  assume ne: "trim s \<noteq> []"
  let ?r = "dropWhile is_space (rev (dropWhile is_space s))"
  from ne have "?r \<noteq> []" by (simp add: trim_def)
  then have "\<not> is_space (hd ?r)" by (rule hd_dropWhile)
  moreover have "last (trim s) = hd ?r" using \<open>?r \<noteq> []\<close> by (simp add: trim_def last_rev)
  ultimately show ?thesis by simp
qed

lemma dropTrailingComma_id:
  "(t \<noteq> [] \<longrightarrow> \<not> is_space (last t) \<and> last t \<noteq> CHR '','') \<Longrightarrow> dropTrailingComma t = t"
proof (induction t)
  case Nil
  then show ?case by simp
next
  case (Cons c cs)
  have no: "\<not> (c = CHR '','' \<and> list_all is_space cs)"
  proof
    assume h: "c = CHR '','' \<and> list_all is_space cs"
    show False
    proof (cases "cs = []")
      case True
      with h Cons.prems show False by simp
    next
      case False
      then have "last (c # cs) \<in> set cs" by simp
      with h have "is_space (last (c # cs))" by (simp add: list_all_iff)
      with Cons.prems show False by simp
    qed
  qed
  have "cs \<noteq> [] \<longrightarrow> \<not> is_space (last cs) \<and> last cs \<noteq> CHR '',''"
    using Cons.prems by auto
  from Cons.IH[OF this] no show ?case by simp
qed

lemma closeAll_append: "closeAll (a @ b) = closeAll a @ closeAll b"
  by (induction a) simp_all

lemma closeAll_closers: "list_all closer (closeAll st)"
  by (induction st) (simp_all add: closer_def)

lemma repairJson_plain:
  assumes "trim s = [] \<or> (last (trim s) \<noteq> backslash \<and> last (trim s) \<noteq> CHR '','')"
  shows "repairJson s = trim s @ closeAll (stack (scan (trim s)))"
proof -
  have a: "(if trim s \<noteq> [] \<and> last (trim s) = backslash then butlast (trim s) else trim s) = trim s"
    using assms by auto
  have "trim s \<noteq> [] \<longrightarrow> \<not> is_space (last (trim s)) \<and> last (trim s) \<noteq> CHR '',''"
    using assms trim_last_not_space by auto
  from dropTrailingComma_id[OF this] have b: "dropTrailingComma (trim s) = trim s" .
  show ?thesis unfolding repairJson_def Let_def a b ..
qed

subsection \<open>Balanced text\<close>

lemma quoted_body_scan:
  "quoted_body q \<Longrightarrow> foldl scanStep (St st True False) q = St st True False"
proof (induction q rule: quoted_body.induct)
  case 1
  then show ?case by simp
next
  case (2 c)
  then show ?case by (simp add: scanStep_def Let_def)
next
  case (3 c e cs)
  show ?case
  proof (cases "c = backslash")
    case True
    with 3 have "foldl scanStep (St st True False) cs = St st True False" by simp
    moreover have "scanStep (scanStep (St st True False) c) e = St st True False"
      using True by (simp add: scanStep_def Let_def)
    ultimately show ?thesis by simp
  next
    case False
    with 3 have ih: "foldl scanStep (St st True False) (e # cs) = St st True False"
      and c: "c \<noteq> dquote" by simp_all
    have "scanStep (St st True False) c = St st True False"
      using False c by (simp add: scanStep_def Let_def)
    with ih show ?thesis by simp
  qed
qed

lemma scan_quoted:
  assumes "quoted_body q"
  shows "foldl scanStep (St st False False) (dquote # q @ [dquote]) = St st False False"
proof -
  have "scanStep (St st False False) dquote = St st True False"
    by (simp add: scanStep_def Let_def)
  moreover have "scanStep (St st True False) dquote = St st False False"
    by (simp add: scanStep_def Let_def)
  ultimately show ?thesis using quoted_body_scan[OF assms, of st] by simp
qed

lemma scanStep_plain: "plain c \<Longrightarrow> scanStep (St st False False) c = St st False False"
  by (simp add: scanStep_def Let_def plain_def)

lemma scanStep_open:
  "c = CHR ''{'' \<or> c = CHR ''['' \<Longrightarrow> scanStep (St st False False) c = St (c # st) False False"
  by (auto simp: scanStep_def Let_def)

lemma scanStep_close_brace: "scanStep (St (CHR ''{'' # st) False False) CHR ''}'' = St st False False"
  by (simp add: scanStep_def Let_def top_is_def)

lemma scanStep_close_bracket: "scanStep (St (CHR ''['' # st) False False) CHR '']'' = St st False False"
  by (simp add: scanStep_def Let_def top_is_def)

lemma balanced_scan:
  "balanced w \<Longrightarrow> foldl scanStep (St st False False) w = St st False False"
proof (induction w arbitrary: st rule: balanced.induct)
  case B_empty
  then show ?case by simp
next
  case (B_plain c)
  then show ?case by (simp add: scanStep_plain)
next
  case (B_quoted q)
  then show ?case by (rule scan_quoted)
next
  case (B_brace x)
  then show ?case by (simp add: scanStep_open scanStep_close_brace)
next
  case (B_bracket x)
  then show ?case by (simp add: scanStep_open scanStep_close_bracket)
next
  case (B_append x y)
  then show ?case by simp
qed

lemma balanced_hd: "balanced w \<Longrightarrow> w \<noteq> [] \<Longrightarrow> \<not> closer (hd w)"
proof (induction w rule: balanced.induct)
  case (B_append x y)
  then show ?case by (cases "x = []") simp_all
qed (simp_all add: closer_def plain_def)

lemma split_closers:
  assumes eq: "x @ y = s @ cs" and cs: "list_all closer cs" and y: "y \<noteq> []" "\<not> closer (hd y)"
  shows "\<exists>s'. s = x @ s' \<and> y = s' @ cs"
proof -
  from eq obtain u where u: "(x = s @ u \<and> u @ y = cs) \<or> (x @ u = s \<and> y = u @ cs)"
    by (auto simp: append_eq_append_conv2)
  show ?thesis
  proof (cases "x = s @ u \<and> u @ y = cs")
    case True
    then have "hd y \<in> set cs" using y(1) by (metis hd_in_set in_set_conv_decomp list.set_sel(1) Un_iff set_append)
    with cs have "closer (hd y)" by (simp add: list_all_iff)
    with y(2) show ?thesis by simp
  next
    case False
    with u have "x @ u = s \<and> y = u @ cs" by blast
    then show ?thesis by blast
  qed
qed

lemma balanced_prefix:
  "balanced w \<Longrightarrow> w = s @ cs \<Longrightarrow> list_all closer cs \<Longrightarrow>
     \<exists>st'. foldl scanStep (St st False False) s = St (st' @ st) False False \<and> closeAll st' = cs"
proof (induction w arbitrary: s cs st rule: balanced.induct)
  case B_empty
  then show ?case by (intro exI[of _ "[]"]) simp
next
  case (B_plain c)
  have "cs = []"
  proof (rule ccontr)
    assume "cs \<noteq> []"
    with B_plain.prems(1) have "cs = [c]" "s = []"
      by (auto simp: Cons_eq_append_conv)
    with B_plain.prems(2) B_plain.hyps show False by (simp add: closer_def plain_def)
  qed
  with B_plain.prems(1) have "s = [c]" by simp
  with B_plain.hyps \<open>cs = []\<close> show ?case by (intro exI[of _ "[]"]) (simp add: scanStep_plain)
next
  case (B_quoted q)
  have "cs = []"
  proof (rule ccontr)
    assume ne: "cs \<noteq> []"
    from B_quoted.prems(1) have "last (dquote # q @ [dquote]) = last (s @ cs)" by simp
    with ne have "last cs = dquote" by simp
    moreover from ne have "last cs \<in> set cs" by simp
    ultimately show False using B_quoted.prems(2) by (auto simp: list_all_iff closer_def)
  qed
  with B_quoted.prems(1) have "s = dquote # q @ [dquote]" by simp
  with scan_quoted[OF B_quoted.hyps, of st] \<open>cs = []\<close> show ?case
    by (intro exI[of _ "[]"]) simp
next
  case (B_brace x)
  show ?case
  proof (cases "cs = []")
    case True
    with B_brace.prems(1) have "s = ''{'' @ x @ ''}''" by simp
    moreover have "balanced (''{'' @ x @ ''}'')" using B_brace.hyps by (rule balanced.B_brace)
    ultimately show ?thesis using True balanced_scan[of s st] by (intro exI[of _ "[]"]) simp
  next
    case False
    then obtain cs' l where cs': "cs = cs' @ [l]" by (metis rev_exhaust)
    have "(CHR ''{'' # x) @ [CHR ''}''] = (s @ cs') @ [l]"
      using B_brace.prems(1) cs' by simp
    then have both: "CHR ''{'' # x = s @ cs' \<and> CHR ''}'' = l"
      by (rule append1_eq_conv[THEN iffD1])
    then have l: "l = CHR ''}''" and eq: "CHR ''{'' # x = s @ cs'" by simp_all
    have "s \<noteq> []"
    proof
      assume "s = []"
      with eq have "cs' = CHR ''{'' # x" by simp
      then have "list_all closer (CHR ''{'' # x)" using B_brace.prems(2) cs' by simp
      then show False by (simp add: closer_def)
    qed
    then obtain h s' where hs: "s = h # s'" by (cases s) simp_all
    with eq have s': "s = CHR ''{'' # s'" "x = s' @ cs'" by simp_all
    have "list_all closer cs'" using B_brace.prems(2) cs' by simp
    from B_brace.IH[OF s'(2) this, of "CHR ''{'' # st"] obtain st' where
      st': "foldl scanStep (St (CHR ''{'' # st) False False) s' = St (st' @ CHR ''{'' # st) False False"
        "closeAll st' = cs'" by blast
    have "foldl scanStep (St st False False) s = St ((st' @ ''{'') @ st) False False"
      using s'(1) st'(1) by (simp add: scanStep_open)
    moreover have "closeAll (st' @ ''{'') = cs" using st'(2) cs' l by (simp add: closeAll_append)
    ultimately show ?thesis by blast
  qed
next
  case (B_bracket x)
  show ?case
  proof (cases "cs = []")
    case True
    with B_bracket.prems(1) have "s = ''['' @ x @ '']''" by simp
    moreover have "balanced (''['' @ x @ '']'')" using B_bracket.hyps by (rule balanced.B_bracket)
    ultimately show ?thesis using True balanced_scan[of s st] by (intro exI[of _ "[]"]) simp
  next
    case False
    then obtain cs' l where cs': "cs = cs' @ [l]" by (metis rev_exhaust)
    have "(CHR ''['' # x) @ [CHR '']''] = (s @ cs') @ [l]"
      using B_bracket.prems(1) cs' by simp
    then have both: "CHR ''['' # x = s @ cs' \<and> CHR '']'' = l"
      by (rule append1_eq_conv[THEN iffD1])
    then have l: "l = CHR '']''" and eq: "CHR ''['' # x = s @ cs'" by simp_all
    have "s \<noteq> []"
    proof
      assume "s = []"
      with eq have "cs' = CHR ''['' # x" by simp
      then have "list_all closer (CHR ''['' # x)" using B_bracket.prems(2) cs' by simp
      then show False by (simp add: closer_def)
    qed
    then obtain h s' where hs: "s = h # s'" by (cases s) simp_all
    with eq have s': "s = CHR ''['' # s'" "x = s' @ cs'" by simp_all
    have "list_all closer cs'" using B_bracket.prems(2) cs' by simp
    from B_bracket.IH[OF s'(2) this, of "CHR ''['' # st"] obtain st' where
      st': "foldl scanStep (St (CHR ''['' # st) False False) s' = St (st' @ CHR ''['' # st) False False"
        "closeAll st' = cs'" by blast
    have "foldl scanStep (St st False False) s = St ((st' @ ''['') @ st) False False"
      using s'(1) st'(1) by (simp add: scanStep_open)
    moreover have "closeAll (st' @ ''['') = cs" using st'(2) cs' l by (simp add: closeAll_append)
    ultimately show ?thesis by blast
  qed
next
  case (B_append x y)
  show ?case
  proof (cases "y = []")
    case True
    with B_append.prems have "x = s @ cs" by simp
    from B_append.IH(1)[OF this B_append.prems(2)] show ?thesis .
  next
    case False
    from split_closers[OF B_append.prems(1) B_append.prems(2) False balanced_hd[OF B_append.hyps(2) False]]
    obtain s' where s': "s = x @ s'" "y = s' @ cs" by blast
    from B_append.IH(2)[OF s'(2) B_append.prems(2), of st] obtain st' where
      "foldl scanStep (St st False False) s' = St (st' @ st) False False" "closeAll st' = cs" by blast
    then show ?thesis using s'(1) balanced_scan[OF B_append.hyps(1), of st] by auto
  qed
qed

subsection \<open>Characters of the grammar\<close>

lemma json_ws_Nil: "json_ws []"
  by (simp add: json_ws_def)

lemma ws_char_props:
  "c \<in> set [CHR 0x20, CHR 0x09, CHR 0x0A, CHR 0x0D] \<Longrightarrow> is_space c \<and> plain c \<and> \<not> closer c"
  by (simp only: list.set insert_iff empty_iff simp_thms)
     (elim disjE; simp add: is_space_def plain_def closer_def)

lemma json_ws_char:
  "json_ws w \<Longrightarrow> c \<in> set w \<Longrightarrow> is_space c \<and> plain c \<and> \<not> closer c"
  using ws_char_props by (simp add: json_ws_def list_all_iff)

lemma json_ws_spaces: "json_ws w \<Longrightarrow> list_all is_space w"
  using json_ws_char by (auto simp: list_all_iff)

lemma numchar_iff:
  "numchar c \<longleftrightarrow> c = CHR ''0'' \<or> c = CHR ''1'' \<or> c = CHR ''2'' \<or> c = CHR ''3'' \<or> c = CHR ''4''
    \<or> c = CHR ''5'' \<or> c = CHR ''6'' \<or> c = CHR ''7'' \<or> c = CHR ''8'' \<or> c = CHR ''9''
    \<or> c = CHR ''+'' \<or> c = CHR ''-'' \<or> c = CHR ''.'' \<or> c = CHR ''e'' \<or> c = CHR ''E''"
  unfolding numchar_def by (simp only: list.set insert_iff empty_iff simp_thms)

lemma numchar_props:
  "numchar c \<Longrightarrow> plain c \<and> \<not> is_space c \<and> \<not> closer c \<and> c \<noteq> CHR '','' \<and> c \<noteq> backslash"
  unfolding numchar_iff
  by (elim disjE; simp add: plain_def is_space_def closer_def)

lemma is_digit_numchar: "is_digit c \<Longrightarrow> numchar c"
  unfolding is_digit_def
  by (simp only: list.set insert_iff empty_iff simp_thms) (elim disjE; simp add: numchar_def)

lemma digits_numchars: "list_all is_digit ds \<Longrightarrow> list_all numchar ds"
  using is_digit_numchar by (auto simp: list_all_iff)

lemma takeWhile_digits: "list_all numchar (takeWhile is_digit r)"
  by (auto simp: list_all_iff dest: set_takeWhileD is_digit_numchar)

lemma split_digits:
  "list_all numchar (dropWhile is_digit r) \<Longrightarrow> list_all numchar r"
proof -
  assume a: "list_all numchar (dropWhile is_digit r)"
  have "r = takeWhile is_digit r @ dropWhile is_digit r" by simp
  then have "list_all numchar r = (list_all numchar (takeWhile is_digit r) \<and> list_all numchar (dropWhile is_digit r))"
    by (metis list_all_append)
  with a takeWhile_digits show ?thesis by simp
qed

lemma json_exponent_chars: "json_exponent s \<Longrightarrow> list_all numchar s"
proof (cases s)
  case Nil
  then show ?thesis by simp
next
  case (Cons e r)
  assume "json_exponent s"
  with Cons have e: "e = CHR ''e'' \<or> e = CHR ''E''"
    and ds: "list_all is_digit (case r of sg # r' \<Rightarrow> if sg = CHR ''+'' \<or> sg = CHR ''-'' then r' else r | [] \<Rightarrow> r)"
    by (simp_all add: json_exponent_def Let_def)
  from e have ne: "numchar e" by (elim disjE; simp add: numchar_def)
  have "list_all numchar r"
  proof (cases r)
    case Nil
    then show ?thesis by simp
  next
    case (Cons sg r')
    show ?thesis
    proof (cases "sg = CHR ''+'' \<or> sg = CHR ''-''")
      case True
      with ds Cons have "list_all is_digit r'" by simp
      moreover from True have "numchar sg" by (elim disjE; simp add: numchar_def)
      ultimately show ?thesis using Cons digits_numchars by simp
    next
      case False
      with ds Cons have "list_all is_digit r" by simp
      then show ?thesis by (rule digits_numchars)
    qed
  qed
  with ne Cons show ?thesis by simp
qed

lemma json_fraction_chars: "json_fraction s \<Longrightarrow> list_all numchar s"
proof (cases s)
  case Nil
  then show ?thesis by simp
next
  case (Cons c r)
  assume f: "json_fraction s"
  show ?thesis
  proof (cases "c = CHR ''.''")
    case True
    with f Cons have "json_exponent (dropWhile is_digit r)" by (simp add: json_fraction_def)
    then have "list_all numchar r" using json_exponent_chars split_digits by blast
    moreover from True have "numchar c" by (simp add: numchar_def)
    ultimately show ?thesis using Cons by simp
  next
    case False
    with f Cons have "json_exponent s" by (simp add: json_fraction_def)
    then show ?thesis by (rule json_exponent_chars)
  qed
qed

lemma json_number_chars: "json_number s \<Longrightarrow> s \<noteq> [] \<and> list_all numchar s"
proof -
  assume n: "json_number s"
  have body: "list_all numchar u"
    if u: "(case u of d # r \<Rightarrow> if d = CHR ''0'' then json_fraction r
                 else is_digit d \<and> json_fraction (dropWhile is_digit r) | [] \<Rightarrow> False)" for u
  proof (cases u)
    case Nil
    with u show ?thesis by simp
  next
    case (Cons d r)
    show ?thesis
    proof (cases "d = CHR ''0''")
      case True
      with u Cons have "json_fraction r" by simp
      then have "list_all numchar r" by (rule json_fraction_chars)
      moreover from True have "numchar d" by (simp add: numchar_def)
      ultimately show ?thesis using Cons by simp
    next
      case False
      with u Cons have d: "is_digit d" and fr: "json_fraction (dropWhile is_digit r)" by simp_all
      from fr have "list_all numchar r" using json_fraction_chars split_digits by blast
      with d Cons show ?thesis by (simp add: is_digit_numchar)
    qed
  qed
  show ?thesis
  proof (cases s)
    case Nil
    with n show ?thesis by (simp add: json_number_def)
  next
    case (Cons c r)
    show ?thesis
    proof (cases "c = CHR ''-''")
      case True
      with n Cons have "list_all numchar r" by (intro body) (simp add: json_number_def)
      moreover from True have "numchar c" by (simp add: numchar_def)
      ultimately show ?thesis using Cons by simp
    next
      case False
      with n Cons have "list_all numchar s" by (intro body) (simp add: json_number_def)
      with Cons show ?thesis by simp
    qed
  qed
qed

lemma hex_quoted:
  assumes "is_hex h" "quoted_body r"
  shows "quoted_body (h # r)"
proof -
  have "\<not> is_hex dquote" "\<not> is_hex backslash" by (simp_all add: is_hex_def)
  with assms(1) have "h \<noteq> dquote \<and> h \<noteq> backslash" by blast
  with assms(2) show ?thesis by (cases r) simp_all
qed

lemma json_chars_quoted: "json_chars b \<Longrightarrow> quoted_body b"
proof (induction "length b" arbitrary: b rule: less_induct)
  case less
  show ?case
  proof (cases b)
    case Nil
    then show ?thesis by simp
  next
    case (Cons c r)
    note b = Cons
    show ?thesis
    proof (cases r)
      case Nil
      with b less.prems show ?thesis by simp
    next
      case (Cons e cs)
      note r = Cons
      show ?thesis
      proof (cases "c = backslash")
        case False
        with less.prems b r have c: "c \<noteq> dquote" and j: "json_chars (e # cs)" by simp_all
        have "length (e # cs) < length b" using b r by simp
        from less.hyps[OF this j] have "quoted_body (e # cs)" .
        with False c b r show ?thesis by simp
      next
        case True
        note bs = True
        show ?thesis
        proof (cases "e \<in> set [dquote, backslash, CHR ''/'', CHR ''b'', CHR ''f'', CHR ''n'', CHR ''r'', CHR ''t'']")
          case True
          with less.prems b r bs have j: "json_chars cs" by simp
          have "length cs < length b" using b r by simp
          from less.hyps[OF this j] have "quoted_body cs" .
          with bs b r show ?thesis by simp
        next
          case False
          with less.prems b r bs have u: "length cs \<ge> 4" "list_all is_hex (take 4 cs)"
            "json_chars (drop 4 cs)" by simp_all
          have "length (drop 4 cs) < length b" using b r by simp
          from less.hyps[OF this u(3)] have q: "quoted_body (drop 4 cs)" .
          from u(1) obtain h1 r1 where c1: "cs = h1 # r1" by (cases cs) simp_all
          with u(1) obtain h2 r2 where c2: "r1 = h2 # r2" by (cases r1) simp_all
          with c1 u(1) obtain h3 r3 where c3: "r2 = h3 # r3" by (cases r2) simp_all
          with c1 c2 u(1) obtain h4 r4 where c4: "r3 = h4 # r4" by (cases r3) simp_all
          from u(2) q c1 c2 c3 c4 have "is_hex h1" "is_hex h2" "is_hex h3" "is_hex h4" "quoted_body r4"
            by simp_all
          then have "quoted_body (h1 # h2 # h3 # h4 # r4)" by (intro hex_quoted)
          with bs b r c1 c2 c3 c4 show ?thesis by simp
        qed
      qed
    qed
  qed
qed

lemma json_string_shape:
  assumes "json_string s"
  shows "\<exists>b. s = dquote # b @ [dquote] \<and> json_chars b"
proof -
  from assms have len: "length s \<ge> 2" and h: "hd s = dquote" and l: "last s = dquote"
    and c: "json_chars (butlast (tl s))" by (simp_all add: json_string_def)
  from len obtain x r where s0: "s = x # r" by (cases s) simp_all
  with len have "r \<noteq> []" by (cases r) simp_all
  note s = s0 this
  then have "r = butlast r @ [last r]" by simp
  with s h l have "s = dquote # butlast (tl s) @ [dquote]" by simp
  with c show ?thesis by blast
qed

lemma list_all_plain_balanced: "list_all plain s \<Longrightarrow> balanced s"
proof (induction s)
  case Nil
  show ?case by (rule B_empty)
next
  case (Cons c s)
  then have "balanced [c]" "balanced s" by (simp_all add: B_plain)
  then have "balanced ([c] @ s)" by (rule B_append)
  then show ?case by simp
qed

lemma json_ws_balanced: "json_ws w \<Longrightarrow> balanced w"
  using json_ws_char by (intro list_all_plain_balanced) (auto simp: list_all_iff)

lemma json_string_balanced: "json_string s \<Longrightarrow> balanced s"
  using json_string_shape json_chars_quoted B_quoted by metis

lemma json_number_balanced: "json_number s \<Longrightarrow> balanced s"
  using json_number_chars numchar_props by (intro list_all_plain_balanced) (auto simp: list_all_iff)

lemma plain_sym: "balanced '',''" "balanced '':''"
  by (rule B_plain, simp add: plain_def)+

lemma json_balanced:
  "json_value v \<Longrightarrow> balanced v"
  "json_element e \<Longrightarrow> balanced e"
  "json_elements es \<Longrightarrow> balanced es"
  "json_member m \<Longrightarrow> balanced m"
  "json_members ms \<Longrightarrow> balanced ms"
proof (induct rule: json_value_json_element_json_elements_json_member_json_members.inducts)
  case (V_string s)
  then show ?case by (rule json_string_balanced)
next
  case (V_number s)
  then show ?case by (rule json_number_balanced)
next
  case V_true
  show ?case by (rule list_all_plain_balanced) (simp add: plain_def)
next
  case V_false
  show ?case by (rule list_all_plain_balanced) (simp add: plain_def)
next
  case V_null
  show ?case by (rule list_all_plain_balanced) (simp add: plain_def)
next
  case (V_empty_array w)
  then show ?case by (intro B_bracket json_ws_balanced)
next
  case (V_array es)
  then show ?case by (intro B_bracket)
next
  case (V_empty_object w)
  then show ?case by (intro B_brace json_ws_balanced)
next
  case (V_object ms)
  then show ?case by (intro B_brace)
next
  case (Element a v b)
  then have "balanced a" "balanced v" "balanced b" by (simp_all add: json_ws_balanced)
  then show ?case by (intro B_append)
next
  case (Elements_one e)
  then show ?case by simp
next
  case (Elements_more e es)
  then have "balanced e" "balanced es" by simp_all
  then show ?case using plain_sym(1) by (intro B_append)
next
  case (Member a k b e)
  then have "balanced a" "balanced k" "balanced b" "balanced e"
    by (simp_all add: json_ws_balanced json_string_balanced)
  then show ?case using plain_sym(2) by (intro B_append)
next
  case (Members_one m)
  then show ?case by simp
next
  case (Members_more m ms)
  then have "balanced m" "balanced ms" by simp_all
  then show ?case using plain_sym(1) by (intro B_append)
qed

subsection \<open>Where a value starts and ends\<close>

lemma json_value_ends:
  assumes "json_value v"
  shows "v \<noteq> [] \<and> \<not> is_space (hd v) \<and> \<not> closer (hd v) \<and> \<not> is_space (last v)
           \<and> last v \<noteq> CHR '','' \<and> last v \<noteq> backslash"
  using assms
proof (cases rule: json_value.cases)
  case V_string
  from json_string_shape[OF this] obtain b where "v = dquote # b @ [dquote]" by blast
  then show ?thesis by (simp add: is_space_def closer_def)
next
  case V_number
  from json_number_chars[OF this] have ne: "v \<noteq> []" and all: "list_all numchar v" by simp_all
  from ne all have "numchar (hd v)" "numchar (last v)" by (simp_all add: list_all_iff)
  with ne numchar_props show ?thesis by blast
next
  case V_true
  then show ?thesis by (simp add: is_space_def closer_def)
next
  case V_false
  then show ?thesis by (simp add: is_space_def closer_def)
next
  case V_null
  then show ?thesis by (simp add: is_space_def closer_def)
next
  case (V_empty_array w)
  then show ?thesis by (simp add: is_space_def closer_def)
next
  case (V_array es)
  then show ?thesis by (simp add: is_space_def closer_def)
next
  case (V_empty_object w)
  then show ?thesis by (simp add: is_space_def closer_def)
next
  case (V_object ms)
  then show ?thesis by (simp add: is_space_def closer_def)
qed

lemma ws_then_start:
  assumes a: "json_ws a" and u: "u \<noteq> []" "\<not> closer (hd u)"
  shows "a @ u \<noteq> [] \<and> \<not> closer (hd (a @ u))"
proof (cases a)
  case Nil
  with u show ?thesis by simp
next
  case (Cons c r)
  with a have "\<not> closer c" using json_ws_char[of a c] by simp
  with Cons show ?thesis by simp
qed

lemma json_element_start:
  assumes "json_element e"
  shows "e \<noteq> [] \<and> \<not> closer (hd e)"
  using assms
proof (cases rule: json_element.cases)
  case (Element a v b)
  from json_value_ends[OF Element(3)] have "v @ b \<noteq> []" "\<not> closer (hd (v @ b))" by simp_all
  from ws_then_start[OF Element(2) this] Element(1) show ?thesis by simp
qed

lemma json_elements_start:
  assumes "json_elements es"
  shows "es \<noteq> [] \<and> \<not> closer (hd es)"
  using assms
proof (cases rule: json_elements.cases)
  case Elements_one
  then show ?thesis by (rule json_element_start)
next
  case (Elements_more e es')
  from json_element_start[OF Elements_more(2)] Elements_more(1) show ?thesis by simp
qed

lemma json_member_start:
  assumes "json_member m"
  shows "m \<noteq> [] \<and> \<not> closer (hd m)"
  using assms
proof (cases rule: json_member.cases)
  case (Member a k b e)
  from json_string_shape[OF Member(3)] obtain q where "k = dquote # q @ [dquote]" by blast
  then have "k @ b @ '':'' @ e \<noteq> []" "\<not> closer (hd (k @ b @ '':'' @ e))"
    by (simp_all add: closer_def)
  from ws_then_start[OF Member(2) this] Member(1) show ?thesis by simp
qed

lemma json_members_start:
  assumes "json_members ms"
  shows "ms \<noteq> [] \<and> \<not> closer (hd ms)"
  using assms
proof (cases rule: json_members.cases)
  case Members_one
  then show ?thesis by (rule json_member_start)
next
  case (Members_more m ms')
  from json_member_start[OF Members_more(2)] Members_more(1) show ?thesis by simp
qed

subsection \<open>Cutting closing characters off well-formed text\<close>

lemma closer_suffix_nil:
  assumes "u \<noteq> []" "\<not> closer (last u)" "u = s @ cs" "list_all closer cs"
  shows "cs = [] \<and> s = u"
proof -
  have "cs = []"
  proof (rule ccontr)
    assume ne: "cs \<noteq> []"
    then have "last u = last cs" using assms(3) by simp
    moreover have "last cs \<in> set cs" using ne by simp
    ultimately show False using assms(2,4) by (simp add: list_all_iff)
  qed
  with assms(3) show ?thesis by simp
qed

lemma cut_ok_whole:
  assumes "X u" "u \<noteq> []" "\<not> is_space (last u)" "last u \<noteq> CHR '',''" "last u \<noteq> backslash"
  shows "cut_ok X u []"
  unfolding cut_ok_def using assms json_ws_Nil
  by (intro exI[of _ u] exI[of _ "[]"]) simp

lemma cut_ok_prepend:
  assumes c: "cut_ok X s' cs'" and Y: "\<And>t. X (t @ cs') \<Longrightarrow> Y (x @ t @ cs' @ z)"
  shows "cut_ok Y (x @ s') (cs' @ z)"
proof -
  from c obtain t b where t: "s' = t @ b" "json_ws b" "t \<noteq> []" "\<not> is_space (last t)"
    "last t \<noteq> CHR '',''" "last t \<noteq> backslash" "X (t @ cs')"
    unfolding cut_ok_def by blast
  have "x @ s' = (x @ t) @ b" using t(1) by simp
  moreover have "x @ t \<noteq> []" using t(3) by simp
  moreover have "last (x @ t) = last t" using t(3) by simp
  moreover have "Y ((x @ t) @ cs' @ z)" using Y[OF t(7)] by simp
  ultimately show ?thesis unfolding cut_ok_def using t(2,4,5,6) by metis
qed

lemma cut_bracket:
  assumes IH: "\<And>s cs. body = s @ cs \<Longrightarrow> list_all closer cs \<Longrightarrow> cut_ok X s cs"
    and body: "body \<noteq> []" "\<not> closer (hd body)" "X body"
    and cl: "\<not> is_space cl" "cl \<noteq> CHR '',''" "cl \<noteq> backslash"
    and Y: "\<And>t. X t \<Longrightarrow> Y ([op] @ t @ [cl])"
    and eq: "[op] @ body @ [cl] = s @ cs" and cs: "list_all closer cs"
  shows "cut_ok Y s cs"
proof (cases "cs = []")
  case True
  with eq have s: "s = [op] @ body @ [cl]" by simp
  have "cut_ok Y ([op] @ body @ [cl]) []"
    using Y[OF body(3)] cl by (intro cut_ok_whole[where X = Y]) simp_all
  with s True show ?thesis by simp
next
  case False
  then obtain cs' l where cs': "cs = cs' @ [l]" by (metis rev_exhaust)
  have "([op] @ body) @ [cl] = (s @ cs') @ [l]" using eq cs' by simp
  then have both: "[op] @ body = s @ cs' \<and> cl = l" by (rule append1_eq_conv[THEN iffD1])
  have c': "list_all closer cs'" using cs cs' by simp
  from split_closers[OF _ c' body(1,2), of "[op]" s] both
  obtain s' where s': "s = [op] @ s'" "body = s' @ cs'" by blast
  from IH[OF s'(2) c'] have "cut_ok X s' cs'" .
  then have "cut_ok Y ([op] @ s') (cs' @ [cl])"
  proof (rule cut_ok_prepend)
    fix t assume "X (t @ cs')"
    from Y[OF this] show "Y ([op] @ t @ cs' @ [cl])" by simp
  qed
  with s'(1) cs' both show ?thesis by simp
qed

lemma cut_empty_bracket:
  assumes w: "json_ws w"
    and op: "\<not> closer op" "\<not> is_space op" "op \<noteq> CHR '',''" "op \<noteq> backslash"
    and cl: "\<not> is_space cl" "cl \<noteq> CHR '',''" "cl \<noteq> backslash"
    and Y: "\<And>w. json_ws w \<Longrightarrow> Y ([op] @ w @ [cl])"
    and eq: "[op] @ w @ [cl] = s @ cs" and cs: "list_all closer cs"
  shows "cut_ok Y s cs"
proof (cases "cs = []")
  case True
  with eq have s: "s = [op] @ w @ [cl]" by simp
  have "cut_ok Y ([op] @ w @ [cl]) []"
    using Y[OF w] cl by (intro cut_ok_whole[where X = Y]) simp_all
  with s True show ?thesis by simp
next
  case False
  then obtain cs' l where cs': "cs = cs' @ [l]" by (metis rev_exhaust)
  have "([op] @ w) @ [cl] = (s @ cs') @ [l]" using eq cs' by simp
  then have both: "[op] @ w = s @ cs' \<and> cl = l" by (rule append1_eq_conv[THEN iffD1])
  have c': "list_all closer cs'" using cs cs' by simp
  have "\<not> closer (last ([op] @ w))"
  proof (cases "w = []")
    case True
    with op(1) show ?thesis by simp
  next
    case False
    then have "last w \<in> set w" by simp
    with json_ws_char[OF w] False show ?thesis by simp
  qed
  from closer_suffix_nil[OF _ this _ c', of s] both
  have n: "cs' = []" "s = [op] @ w" by simp_all
  have "Y ([op] @ [cl])" using Y[OF json_ws_Nil] by simp
  then have "cut_ok Y ([op] @ w) [cl]"
    unfolding cut_ok_def using w op by (intro exI[of _ "[op]"] exI[of _ w]) simp
  with n cs' both show ?thesis by simp
qed

lemma cut_ok_mono:
  assumes "cut_ok X s cs" and "\<And>t. X t \<Longrightarrow> Y t"
  shows "cut_ok Y s cs"
  using assms unfolding cut_ok_def by blast

lemma cut_after:
  assumes IH: "\<And>s cs. y = s @ cs \<Longrightarrow> list_all closer cs \<Longrightarrow> cut_ok X s cs"
    and y: "y \<noteq> []" "\<not> closer (hd y)"
    and Y: "\<And>t. X t \<Longrightarrow> Y (x @ t)"
    and eq: "x @ y = s @ cs" and cs: "list_all closer cs"
  shows "cut_ok Y s cs"
proof -
  from split_closers[OF eq cs y] obtain s' where s': "s = x @ s'" "y = s' @ cs" by blast
  from IH[OF s'(2) cs] have "cut_ok X s' cs" .
  then have "cut_ok Y (x @ s') (cs @ [])"
  proof (rule cut_ok_prepend)
    fix t assume "X (t @ cs)"
    from Y[OF this] show "Y (x @ t @ cs @ [])" by simp
  qed
  with s'(1) show ?thesis by simp
qed

lemmas jI = json_value_json_element_json_elements_json_member_json_members.intros

lemma json_cut:
  "json_value v \<Longrightarrow> \<forall>s cs. v = s @ cs \<longrightarrow> list_all closer cs \<longrightarrow> cut_ok json_value s cs"
  "json_element e \<Longrightarrow> \<forall>s cs. e = s @ cs \<longrightarrow> list_all closer cs \<longrightarrow> cut_ok json_element s cs"
  "json_elements es \<Longrightarrow> \<forall>s cs. es = s @ cs \<longrightarrow> list_all closer cs \<longrightarrow> cut_ok json_elements s cs"
  "json_member m \<Longrightarrow> \<forall>s cs. m = s @ cs \<longrightarrow> list_all closer cs \<longrightarrow> cut_ok json_member s cs"
  "json_members ms \<Longrightarrow> \<forall>s cs. ms = s @ cs \<longrightarrow> list_all closer cs \<longrightarrow> cut_ok json_members s cs"
proof (induct rule: json_value_json_element_json_elements_json_member_json_members.inducts)
  case (V_string u)
  show ?case
  proof (intro allI impI)
    fix s cs assume eq: "u = s @ cs" and cs: "list_all closer cs"
    have v: "json_value u" using V_string by (rule jI(1))
    from json_value_ends[OF v] have e: "u \<noteq> []" "\<not> is_space (last u)" "last u \<noteq> CHR '',''"
      "last u \<noteq> backslash" by simp_all
    from json_string_shape[OF V_string] have "\<not> closer (last u)" by (auto simp: closer_def)
    from closer_suffix_nil[OF e(1) this eq cs] cut_ok_whole[where X = json_value, OF v e]
    show "cut_ok json_value s cs" by simp
  qed
next
  case (V_number u)
  show ?case
  proof (intro allI impI)
    fix s cs assume eq: "u = s @ cs" and cs: "list_all closer cs"
    have v: "json_value u" using V_number by (rule jI(2))
    from json_value_ends[OF v] have e: "u \<noteq> []" "\<not> is_space (last u)" "last u \<noteq> CHR '',''"
      "last u \<noteq> backslash" by simp_all
    from json_number_chars[OF V_number] have "numchar (last u)" by (simp add: list_all_iff)
    then have "\<not> closer (last u)" using numchar_props by blast
    from closer_suffix_nil[OF e(1) this eq cs] cut_ok_whole[where X = json_value, OF v e]
    show "cut_ok json_value s cs" by simp
  qed
next
  case V_true
  show ?case
  proof (intro allI impI)
    fix s cs assume eq: "''true'' = s @ cs" and cs: "list_all closer cs"
    have "cut_ok json_value ''true'' []"
      by (rule cut_ok_whole[where X = json_value, OF jI(3)]) (simp_all add: is_space_def)
    moreover have "cs = [] \<and> s = ''true''"
      by (rule closer_suffix_nil[OF _ _ eq cs]) (simp_all add: closer_def)
    ultimately show "cut_ok json_value s cs" by simp
  qed
next
  case V_false
  show ?case
  proof (intro allI impI)
    fix s cs assume eq: "''false'' = s @ cs" and cs: "list_all closer cs"
    have "cut_ok json_value ''false'' []"
      by (rule cut_ok_whole[where X = json_value, OF jI(4)]) (simp_all add: is_space_def)
    moreover have "cs = [] \<and> s = ''false''"
      by (rule closer_suffix_nil[OF _ _ eq cs]) (simp_all add: closer_def)
    ultimately show "cut_ok json_value s cs" by simp
  qed
next
  case V_null
  show ?case
  proof (intro allI impI)
    fix s cs assume eq: "''null'' = s @ cs" and cs: "list_all closer cs"
    have "cut_ok json_value ''null'' []"
      by (rule cut_ok_whole[where X = json_value, OF jI(5)]) (simp_all add: is_space_def)
    moreover have "cs = [] \<and> s = ''null''"
      by (rule closer_suffix_nil[OF _ _ eq cs]) (simp_all add: closer_def)
    ultimately show "cut_ok json_value s cs" by simp
  qed
next
  case (V_empty_array w)
  show ?case
  proof (intro allI impI)
    fix s cs assume eq: "''['' @ w @ '']'' = s @ cs" and cs: "list_all closer cs"
    show "cut_ok json_value s cs"
    proof (rule cut_empty_bracket[OF V_empty_array _ _ _ _ _ _ _ _ _ cs])
      show "[CHR ''[''] @ w @ [CHR '']''] = s @ cs" using eq by simp
      show "\<And>w. json_ws w \<Longrightarrow> json_value ([CHR ''[''] @ w @ [CHR '']''])"
        using jI(6) by simp
    qed (simp_all add: closer_def is_space_def)
  qed
next
  case (V_array es)
  show ?case
  proof (intro allI impI)
    fix s cs assume eq: "''['' @ es @ '']'' = s @ cs" and cs: "list_all closer cs"
    from json_elements_start[OF V_array(1)] have st: "es \<noteq> []" "\<not> closer (hd es)" by simp_all
    show "cut_ok json_value s cs"
    proof (rule cut_bracket[where X = json_elements and body = es and op = "CHR ''[''" and cl = "CHR '']''",
          OF _ st V_array(1) _ _ _ _ _ cs])
      show "\<And>s cs. es = s @ cs \<Longrightarrow> list_all closer cs \<Longrightarrow> cut_ok json_elements s cs"
        using V_array(2) by blast
      show "[CHR ''[''] @ es @ [CHR '']''] = s @ cs" using eq by simp
      show "\<And>t. json_elements t \<Longrightarrow> json_value ([CHR ''[''] @ t @ [CHR '']''])"
        using jI(7) by simp
    qed (simp_all add: is_space_def)
  qed
next
  case (V_empty_object w)
  show ?case
  proof (intro allI impI)
    fix s cs assume eq: "''{'' @ w @ ''}'' = s @ cs" and cs: "list_all closer cs"
    show "cut_ok json_value s cs"
    proof (rule cut_empty_bracket[OF V_empty_object _ _ _ _ _ _ _ _ _ cs])
      show "[CHR ''{''] @ w @ [CHR ''}''] = s @ cs" using eq by simp
      show "\<And>w. json_ws w \<Longrightarrow> json_value ([CHR ''{''] @ w @ [CHR ''}''])"
        using jI(8) by simp
    qed (simp_all add: closer_def is_space_def)
  qed
next
  case (V_object ms)
  show ?case
  proof (intro allI impI)
    fix s cs assume eq: "''{'' @ ms @ ''}'' = s @ cs" and cs: "list_all closer cs"
    from json_members_start[OF V_object(1)] have st: "ms \<noteq> []" "\<not> closer (hd ms)" by simp_all
    show "cut_ok json_value s cs"
    proof (rule cut_bracket[where X = json_members and body = ms and op = "CHR ''{''" and cl = "CHR ''}''",
          OF _ st V_object(1) _ _ _ _ _ cs])
      show "\<And>s cs. ms = s @ cs \<Longrightarrow> list_all closer cs \<Longrightarrow> cut_ok json_members s cs"
        using V_object(2) by blast
      show "[CHR ''{''] @ ms @ [CHR ''}''] = s @ cs" using eq by simp
      show "\<And>t. json_members t \<Longrightarrow> json_value ([CHR ''{''] @ t @ [CHR ''}''])"
        using jI(9) by simp
    qed (simp_all add: is_space_def)
  qed
next
  case (Element a v b)
  show ?case
  proof (intro allI impI)
    fix s cs assume eq: "a @ v @ b = s @ cs" and cs: "list_all closer cs"
    from json_value_ends[OF Element(2)] have ve: "v \<noteq> []" "\<not> closer (hd v)" "\<not> is_space (last v)"
      "last v \<noteq> CHR '',''" "last v \<noteq> backslash" by simp_all
    show "cut_ok json_element s cs"
    proof (cases "b = []")
      case True
      show ?thesis
      proof (rule cut_after[where X = json_value and y = v and x = a, OF _ ve(1,2) _ _ cs])
        show "\<And>s cs. v = s @ cs \<Longrightarrow> list_all closer cs \<Longrightarrow> cut_ok json_value s cs"
          using Element(3) by blast
        show "a @ v = s @ cs" using eq True by simp
        show "\<And>t. json_value t \<Longrightarrow> json_element (a @ t)"
          using jI(10)[OF Element(1) _ json_ws_Nil] by simp
      qed
    next
      case False
      then have "last (a @ v @ b) \<in> set b" by simp
      with json_ws_char[OF Element(4)] have "\<not> closer (last (a @ v @ b))" by blast
      from closer_suffix_nil[OF _ this eq cs] ve(1) have n: "cs = []" "s = a @ v @ b" by simp_all
      have "json_element ((a @ v) @ [])"
        using jI(10)[OF Element(1,2) json_ws_Nil] by simp
      then have "cut_ok json_element ((a @ v) @ b) []"
        unfolding cut_ok_def using ve Element(4)
        by (intro exI[of _ "a @ v"] exI[of _ b]) simp
      with n show ?thesis by simp
    qed
  qed
next
  case (Elements_one e)
  show ?case
  proof (intro allI impI)
    fix s cs assume "e = s @ cs" "list_all closer cs"
    with Elements_one(2) have "cut_ok json_element s cs" by blast
    then show "cut_ok json_elements s cs"
      by (rule cut_ok_mono) (rule jI(11))
  qed
next
  case (Elements_more e es)
  show ?case
  proof (intro allI impI)
    fix s cs assume eq: "e @ '','' @ es = s @ cs" and cs: "list_all closer cs"
    from json_elements_start[OF Elements_more(3)] have st: "es \<noteq> []" "\<not> closer (hd es)" by simp_all
    show "cut_ok json_elements s cs"
    proof (rule cut_after[where X = json_elements and y = es and x = "e @ '',''", OF _ st _ _ cs])
      show "\<And>s cs. es = s @ cs \<Longrightarrow> list_all closer cs \<Longrightarrow> cut_ok json_elements s cs"
        using Elements_more(4) by blast
      show "(e @ '','') @ es = s @ cs" using eq by simp
      show "\<And>t. json_elements t \<Longrightarrow> json_elements ((e @ '','') @ t)"
        using jI(12)[OF Elements_more(1)] by simp
    qed
  qed
next
  case (Member a k b e)
  show ?case
  proof (intro allI impI)
    fix s cs assume eq: "a @ k @ b @ '':'' @ e = s @ cs" and cs: "list_all closer cs"
    from json_element_start[OF Member(4)] have st: "e \<noteq> []" "\<not> closer (hd e)" by simp_all
    show "cut_ok json_member s cs"
    proof (rule cut_after[where X = json_element and y = e and x = "a @ k @ b @ '':''", OF _ st _ _ cs])
      show "\<And>s cs. e = s @ cs \<Longrightarrow> list_all closer cs \<Longrightarrow> cut_ok json_element s cs"
        using Member(5) by blast
      show "(a @ k @ b @ '':'') @ e = s @ cs" using eq by simp
      show "\<And>t. json_element t \<Longrightarrow> json_member ((a @ k @ b @ '':'') @ t)"
        using jI(13)[OF Member(1,2,3)] by simp
    qed
  qed
next
  case (Members_one m)
  show ?case
  proof (intro allI impI)
    fix s cs assume "m = s @ cs" "list_all closer cs"
    with Members_one(2) have "cut_ok json_member s cs" by blast
    then show "cut_ok json_members s cs"
      by (rule cut_ok_mono) (rule jI(14))
  qed
next
  case (Members_more m ms)
  show ?case
  proof (intro allI impI)
    fix s cs assume eq: "m @ '','' @ ms = s @ cs" and cs: "list_all closer cs"
    from json_members_start[OF Members_more(3)] have st: "ms \<noteq> []" "\<not> closer (hd ms)" by simp_all
    show "cut_ok json_members s cs"
    proof (rule cut_after[where X = json_members and y = ms and x = "m @ '',''", OF _ st _ _ cs])
      show "\<And>s cs. ms = s @ cs \<Longrightarrow> list_all closer cs \<Longrightarrow> cut_ok json_members s cs"
        using Members_more(4) by blast
      show "(m @ '','') @ ms = s @ cs" using eq by simp
      show "\<And>t. json_members t \<Longrightarrow> json_members ((m @ '','') @ t)"
        using jI(15)[OF Members_more(1)] by simp
    qed
  qed
qed

lemma trim_sandwich:
  assumes a: "list_all is_space a" and b: "list_all is_space b"
    and t: "t \<noteq> []" "\<not> is_space (hd t)" "\<not> is_space (last t)"
  shows "trim (a @ t @ b) = t"
proof -
  from t(1) obtain h r where hr: "t = h # r" by (cases t) simp_all
  have "dropWhile is_space (a @ t @ b) = dropWhile is_space (t @ b)"
    using a by (intro dropWhile_append2) (simp add: list_all_iff)
  also have "\<dots> = t @ b" using hr t(2) by simp
  finally have l: "dropWhile is_space (a @ t @ b) = t @ b" .
  have rt: "rev t \<noteq> []" "\<not> is_space (hd (rev t))" using t by (simp_all add: hd_rev)
  then obtain h' r' where hr': "rev t = h' # r'" by (cases "rev t") simp_all
  have "dropWhile is_space (rev b @ rev t) = dropWhile is_space (rev t)"
    using b by (intro dropWhile_append2) (simp add: list_all_iff)
  then have "dropWhile is_space (rev (t @ b)) = dropWhile is_space (rev t)" by simp
  also have "\<dots> = rev t" using hr' rt(2) by simp
  finally show ?thesis by (simp add: trim_def l)
qed

text \<open>
  Claim C9. When the trimmed input ends in neither a backslash nor a comma, the output of
  \<^verbatim>\<open>repairJson\<close> is the trimmed input followed by closing braces and brackets only (one for
  every entry left on the stack); when the braces and brackets of the trimmed input are
  balanced outside quoted strings, the output is the trimmed input.
\<close>

theorem repair_appends_closers:
  assumes "trim s = [] \<or> (last (trim s) \<noteq> backslash \<and> last (trim s) \<noteq> CHR '','')"
  shows "repairJson s = trim s @ closeAll (stack (scan (trim s))) \<and>
         list_all closer (closeAll (stack (scan (trim s)))) \<and>
         (balanced (trim s) \<longrightarrow> repairJson s = trim s)"
proof (intro conjI impI)
  show eq: "repairJson s = trim s @ closeAll (stack (scan (trim s)))"
    using assms by (rule repairJson_plain)
  show "list_all closer (closeAll (stack (scan (trim s))))" by (rule closeAll_closers)
  assume "balanced (trim s)"
  from balanced_scan[OF this, of "[]"] have "stack (scan (trim s)) = []" by (simp add: scan_def)
  with eq show "repairJson s = trim s" by simp
qed

theorem repair_appends_closers_witness:
  "last (trim '' {\"a\":[1,2] '') \<noteq> backslash \<and> last (trim '' {\"a\":[1,2] '') \<noteq> CHR '','' \<and>
   repairJson '' {\"a\":[1,2] '' = ''{\"a\":[1,2]}''"
proof -
  have t: "trim '' {\"a\":[1,2] '' = ''{\"a\":[1,2]''" by (simp add: trim_def is_space_def)
  have h: "trim '' {\"a\":[1,2] '' = [] \<or>
           (last (trim '' {\"a\":[1,2] '') \<noteq> backslash \<and> last (trim '' {\"a\":[1,2] '') \<noteq> CHR '','')"
    unfolding t by simp
  have st: "stack (scan ''{\"a\":[1,2]'') = ''{''"
    by (simp add: scan_def scanStep_def Let_def top_is_def)
  from repair_appends_closers[OF h] show ?thesis unfolding t st by simp
qed

text \<open>
  Claim C3, as the code has it. Let a well-formed JSON text be cut by dropping closing braces
  and brackets from its end. Then \<^verbatim>\<open>repairJson\<close> returns the trimmed input with exactly the
  dropped characters appended; the result is well-formed JSON; and when the input has no
  white space at its ends, the result is the well-formed text itself. The trailing backslash
  and the trailing comma that the function would drop do not occur in such an input.
\<close>

theorem repair_truncated_json:
  assumes w: "json_element w" and eq: "w = s @ cs" and cs: "list_all closer cs"
  shows "repairJson s = trim s @ cs \<and> json_element (repairJson s) \<and>
         (trim s = s \<longrightarrow> repairJson s = w)"
proof -
  from w obtain a v b0 where wv: "w = a @ v @ b0" "json_ws a" "json_value v" "json_ws b0"
    by (cases rule: json_element.cases) blast
  from json_value_ends[OF wv(3)] have ve: "v \<noteq> []" "\<not> is_space (hd v)" "\<not> closer (hd v)"
    "\<not> is_space (last v)" "last v \<noteq> CHR '',''" "last v \<noteq> backslash" by simp_all
  have "\<exists>t b. s = a @ t @ b \<and> json_ws b \<and> t \<noteq> [] \<and> \<not> is_space (hd t) \<and> \<not> is_space (last t)
          \<and> last t \<noteq> CHR '','' \<and> last t \<noteq> backslash \<and> json_value (t @ cs)"
  proof (cases "b0 = []")
    case True
    with wv(1) eq have "a @ v = s @ cs" by simp
    from split_closers[OF this cs ve(1,3)] obtain s' where s': "s = a @ s'" "v = s' @ cs" by blast
    from json_cut(1)[OF wv(3)] s'(2) cs have "cut_ok json_value s' cs" by blast
    then obtain t b where t: "s' = t @ b" "json_ws b" "t \<noteq> []" "\<not> is_space (last t)"
      "last t \<noteq> CHR '',''" "last t \<noteq> backslash" "json_value (t @ cs)"
      unfolding cut_ok_def by blast
    have "hd t = hd v" using t(1,3) s'(2) by simp
    with ve(2) have "\<not> is_space (hd t)" by simp
    with t s'(1) show ?thesis by auto
  next
    case False
    then have "last (a @ v @ b0) \<in> set b0" by simp
    with json_ws_char[OF wv(4)] have "\<not> closer (last (a @ v @ b0))" by blast
    have ne: "a @ v @ b0 \<noteq> []" using ve(1) by simp
    have eq': "a @ v @ b0 = s @ cs" using wv(1) eq by simp
    from closer_suffix_nil[OF ne \<open>\<not> closer (last (a @ v @ b0))\<close> eq' cs]
    have n: "cs = []" "s = a @ v @ b0" by simp_all
    with ve wv(3,4) show ?thesis by auto
  qed
  then obtain t b where t: "s = a @ t @ b" "json_ws b" "t \<noteq> []" "\<not> is_space (hd t)"
    "\<not> is_space (last t)" "last t \<noteq> CHR '',''" "last t \<noteq> backslash" "json_value (t @ cs)" by blast
  have tr: "trim s = t"
    unfolding t(1) using json_ws_spaces[OF wv(2)] json_ws_spaces[OF t(2)] t(3,4,5)
    by (rule trim_sandwich)
  have "trim s = [] \<or> (last (trim s) \<noteq> backslash \<and> last (trim s) \<noteq> CHR '','')"
    using tr t(6,7) by simp
  from repairJson_plain[OF this] have r: "repairJson s = t @ closeAll (stack (scan s))"
    by (simp add: stack_scan_trim tr[symmetric])
  from json_balanced(2)[OF w] have "balanced w" .
  from balanced_prefix[OF this eq cs, of "[]"] obtain st' where
    "foldl scanStep (St [] False False) s = St (st' @ []) False False" "closeAll st' = cs" by blast
  then have "closeAll (stack (scan s)) = cs" by (simp add: scan_def)
  with r have res: "repairJson s = t @ cs" by simp
  have el: "json_element (t @ cs)"
    using jI(10)[OF json_ws_Nil t(8) json_ws_Nil] by simp
  show ?thesis using res el tr eq by simp
qed

theorem repair_truncated_json_witness:
  "json_element ''{\"a\":[1,2]}'' \<and> list_all closer '']}'' \<and> trim ''{\"a\":[1,2'' = ''{\"a\":[1,2'' \<and>
   repairJson ''{\"a\":[1,2'' = ''{\"a\":[1,2]}''"
proof -
  have n1: "json_value ''1''" and n2: "json_value ''2''"
    by (rule jI(2), simp add: json_number_def json_fraction_def json_exponent_def is_digit_def)+
  have e1: "json_element ''1''" using jI(10)[OF json_ws_Nil n1 json_ws_Nil] by simp
  have e2: "json_element ''2''" using jI(10)[OF json_ws_Nil n2 json_ws_Nil] by simp
  have es: "json_elements ''1,2''" using jI(12)[OF e1 jI(11)[OF e2]] by simp
  have arr: "json_value ''[1,2]''" using jI(7)[OF es] by simp
  have ea: "json_element ''[1,2]''" using jI(10)[OF json_ws_Nil arr json_ws_Nil] by simp
  have k: "json_string ''\"a\"''" by (simp add: json_string_def)
  have m: "json_member ''\"a\":[1,2]''" using jI(13)[OF json_ws_Nil k json_ws_Nil ea] by simp
  have obj: "json_value ''{\"a\":[1,2]}''" using jI(9)[OF jI(14)[OF m]] by simp
  have w: "json_element ''{\"a\":[1,2]}''" using jI(10)[OF json_ws_Nil obj json_ws_Nil] by simp
  have eq: "''{\"a\":[1,2]}'' = ''{\"a\":[1,2'' @ '']}''" by simp
  have cs: "list_all closer '']}''" by (simp add: closer_def)
  have tr: "trim ''{\"a\":[1,2'' = ''{\"a\":[1,2''" by (simp add: trim_def is_space_def)
  from repair_truncated_json[OF w eq cs] w cs tr show ?thesis by simp
qed

text \<open>
  With white space before the cut the result is not the well-formed text: the function
  trims its input first.
\<close>

theorem repair_truncated_json_counterexample:
  "json_element ''[1 ]'' \<and> ''[1 ]'' = ''[1 '' @ '']'' \<and> repairJson ''[1 '' = ''[1]'' \<and>
   repairJson ''[1 '' \<noteq> ''[1 ]''"
proof -
  have n1: "json_value ''1''"
    by (rule jI(2), simp add: json_number_def json_fraction_def json_exponent_def is_digit_def)
  have ws: "json_ws '' ''" by (simp add: json_ws_def)
  have e1: "json_element ''1 ''" using jI(10)[OF json_ws_Nil n1 ws] by simp
  have arr: "json_value ''[1 ]''" using jI(7)[OF jI(11)[OF e1]] by simp
  have w: "json_element ''[1 ]''" using jI(10)[OF json_ws_Nil arr json_ws_Nil] by simp
  have t: "trim ''[1 '' = ''[1''" by (simp add: trim_def is_space_def)
  have r: "repairJson ''[1 '' = ''[1]''"
    unfolding repairJson_def Let_def t
    by (simp add: scan_def scanStep_def Let_def top_is_def is_space_def)
  from w r show ?thesis by simp
qed

section \<open>Cleaning the response text\<close>

declare stripAll.simps [simp del]

lemma stripAll_Nil: "stripAll pat [] = []"
  by (simp add: stripAll.simps)

lemma stripAll_match:
  "pat \<noteq> [] \<Longrightarrow> prefix pat s \<Longrightarrow> stripAll pat s = stripAll pat (drop (length pat) s)"
  by (cases "s = []") (simp_all add: stripAll.simps[of pat s] stripAll_Nil)

lemma stripAll_skip:
  "\<not> (pat \<noteq> [] \<and> prefix pat (c # r)) \<Longrightarrow> stripAll pat (c # r) = c # stripAll pat r"
  by (subst stripAll.simps) auto

lemma set_stripAll: "set (stripAll pat s) \<subseteq> set s"
proof (induction pat s rule: stripAll.induct)
  case (1 pat s)
  show ?case
  proof (cases "s = []")
    case True
    then show ?thesis by (simp add: stripAll_Nil)
  next
    case False
    note ne = False
    show ?thesis
    proof (cases "pat \<noteq> [] \<and> prefix pat s")
      case True
      with 1(1)[OF ne True] stripAll_match[of pat s] show ?thesis
        by (auto dest: in_set_dropD)
    next
      case False
      from ne obtain c r where s: "s = c # r" by (cases s) simp_all
      with 1(2)[OF ne False] stripAll_skip[of pat c r] False show ?thesis by auto
    qed
  qed
qed

lemma prefix_crosses:
  assumes p: "prefix pat (x @ z)" and np: "\<not> prefix pat x"
  shows "z \<noteq> [] \<and> hd z \<in> set pat \<and> set x \<subseteq> set pat"
proof -
  from p obtain q where q: "x @ z = pat @ q" by (auto simp: prefix_def)
  then obtain u where u: "(x = pat @ u \<and> u @ z = q) \<or> (x @ u = pat \<and> z = u @ q)"
    by (auto simp: append_eq_append_conv2)
  from np have "\<not> (\<exists>u. x = pat @ u)" by (auto simp: prefix_def)
  with u have u': "x @ u = pat" "z = u @ q" by auto
  with np have "u \<noteq> []" by auto
  with u' show ?thesis by (cases u) auto
qed

lemma stripAll_append_left:
  assumes z: "z \<noteq> [] \<longrightarrow> hd z \<notin> set pat"
  shows "stripAll pat (x @ z) = stripAll pat x @ stripAll pat z"
proof (induction "length x" arbitrary: x rule: less_induct)
  case less
  show ?case
  proof (cases x)
    case Nil
    then show ?thesis by (simp add: stripAll_Nil)
  next
    case (Cons c r)
    show ?thesis
    proof (cases "pat \<noteq> [] \<and> prefix pat x")
      case True
      then have le: "length pat \<le> length x" by (auto simp: prefix_def)
      from True have p2: "prefix pat (x @ z)" by (auto simp: prefix_def)
      have "length (drop (length pat) x) < length x" using True Cons by (cases pat) simp_all
      from less[OF this] have ih: "stripAll pat (drop (length pat) x @ z)
            = stripAll pat (drop (length pat) x) @ stripAll pat z" .
      have "stripAll pat (x @ z) = stripAll pat (drop (length pat) (x @ z))"
        using True p2 by (intro stripAll_match) simp_all
      also have "\<dots> = stripAll pat (drop (length pat) x @ z)" using le by simp
      also have "\<dots> = stripAll pat (drop (length pat) x) @ stripAll pat z" by (rule ih)
      also have "stripAll pat (drop (length pat) x) = stripAll pat x"
        using True by (intro stripAll_match[symmetric]) simp_all
      finally show ?thesis .
    next
      case False
      have no: "\<not> (pat \<noteq> [] \<and> prefix pat (c # (r @ z)))"
      proof
        assume h: "pat \<noteq> [] \<and> prefix pat (c # (r @ z))"
        with False have np: "\<not> prefix pat x" by simp
        from h Cons have "prefix pat (x @ z)" by simp
        from prefix_crosses[OF this np] z show False by simp
      qed
      have "length r < length x" using Cons by simp
      from less[OF this] have ih: "stripAll pat (r @ z) = stripAll pat r @ stripAll pat z" .
      have "stripAll pat (x @ z) = c # stripAll pat (r @ z)"
        using stripAll_skip[OF no] Cons by simp
      moreover have "stripAll pat x = c # stripAll pat r"
        using stripAll_skip[of pat c r] False Cons by simp
      ultimately show ?thesis using ih by simp
    qed
  qed
qed

lemma indexOf_first:
  assumes "c \<notin> set x" "z \<noteq> []" "hd z = c"
  shows "indexOf c (x @ z) = Some (length x)"
proof -
  from assms(2,3) obtain r where z: "z = c # r" by (cases z) simp_all
  have "takeWhile (\<lambda>a. a \<noteq> c) (x @ z) = x"
    unfolding z using assms(1) by (auto simp: takeWhile_tail)
  with z show ?thesis by (simp add: indexOf_def)
qed

lemma lastIndexOf_last:
  assumes "c \<notin> set y" "z \<noteq> []" "last z = c"
  shows "lastIndexOf c (z @ y) = Some (length z - 1)"
proof -
  from assms(2,3) obtain r where z: "rev z = c # r" by (cases "rev z") (simp_all add: last_rev)
  have "takeWhile (\<lambda>a. a \<noteq> c) (rev y @ rev z) = rev y"
    unfolding z using assms(1) by (auto simp: takeWhile_tail)
  then have "length (takeWhile (\<lambda>a. a \<noteq> c) (rev (z @ y))) = length y" by simp
  moreover have "c \<in> set (z @ y)" using assms(2,3) last_in_set[of z] by auto
  ultimately show ?thesis by (simp add: lastIndexOf_def)
qed

lemma json_object_last:
  assumes "json_value obj" "hd obj = CHR ''{''"
  shows "length obj \<ge> 2 \<and> last obj = CHR ''}''"
  using assms(1)
proof (cases rule: json_value.cases)
  case V_string
  with assms(2) show ?thesis by (simp add: json_string_def)
next
  case V_number
  from json_number_chars[OF this] have "numchar (hd obj)" by (cases obj) simp_all
  with assms(2) show ?thesis by (simp add: numchar_def)
qed (use assms(2) in simp_all)

lemma stripAll_append_right:
  assumes "a \<noteq> []" "last a \<notin> set pat"
  shows "stripAll pat (a @ y) = stripAll pat a @ stripAll pat y"
  using assms
proof (induction "length a" arbitrary: a rule: less_induct)
  case less
  from less.prems(1) obtain c r where a: "a = c # r" by (cases a) simp_all
  show ?case
  proof (cases "pat \<noteq> [] \<and> prefix pat (a @ y)")
    case True
    have pa: "prefix pat a"
    proof (rule ccontr)
      assume np: "\<not> prefix pat a"
      from True have "prefix pat (a @ y)" by simp
      from prefix_crosses[OF this np] have "set a \<subseteq> set pat" by simp
      moreover have "last a \<in> set a" using less.prems(1) by simp
      ultimately show False using less.prems(2) by blast
    qed
    then obtain a' where a': "a = pat @ a'" by (auto simp: prefix_def)
    have ne': "a' \<noteq> []"
    proof
      assume "a' = []"
      with a' have "a = pat" by simp
      with less.prems show False by simp
    qed
    have la: "last a' = last a" using a' ne' by simp
    have len: "length a' < length a" using a' True by (cases pat) simp_all
    have d1: "drop (length pat) (a @ y) = a' @ y" using a' by simp
    have d2: "drop (length pat) a = a'" using a' by simp
    have "stripAll pat (a @ y) = stripAll pat (a' @ y)"
      using stripAll_match[of pat "a @ y"] True d1 by simp
    also have "\<dots> = stripAll pat a' @ stripAll pat y"
      using less.hyps[OF len ne'] la less.prems(2) by simp
    also have "stripAll pat a' = stripAll pat a"
      using stripAll_match[of pat a] True pa d2 by simp
    finally show ?thesis .
  next
    case False
    then have n1: "\<not> (pat \<noteq> [] \<and> prefix pat (c # (r @ y)))" using a by simp
    have n2: "\<not> (pat \<noteq> [] \<and> prefix pat (c # r))"
    proof
      assume "pat \<noteq> [] \<and> prefix pat (c # r)"
      then have "pat \<noteq> [] \<and> prefix pat ((c # r) @ y)" using prefix_prefix by blast
      with n1 show False by simp
    qed
    have s1: "stripAll pat (a @ y) = c # stripAll pat (r @ y)"
      using stripAll_skip[OF n1] a by simp
    have s2: "stripAll pat a = c # stripAll pat r" using stripAll_skip[OF n2] a by simp
    show ?thesis
    proof (cases "r = []")
      case True
      with s1 s2 show ?thesis by (simp add: stripAll_Nil)
    next
      case False
      have "length r < length a" using a by simp
      moreover have "last r \<notin> set pat" using less.prems(2) a False by simp
      ultimately have "stripAll pat (r @ y) = stripAll pat r @ stripAll pat y"
        using less.hyps False by blast
      with s1 s2 show ?thesis by simp
    qed
  qed
qed

lemma stripAll_hd:
  assumes "a \<noteq> []" "hd a \<notin> set pat"
  shows "stripAll pat a \<noteq> [] \<and> hd (stripAll pat a) = hd a"
proof -
  from assms(1) obtain c r where a: "a = c # r" by (cases a) simp_all
  have "\<not> (pat \<noteq> [] \<and> prefix pat (c # r))"
  proof
    assume h: "pat \<noteq> [] \<and> prefix pat (c # r)"
    then obtain p ps where "pat = p # ps" by (cases pat) simp_all
    with h have "c \<in> set pat" by simp
    with assms(2) a show False by simp
  qed
  from stripAll_skip[OF this] a show ?thesis by simp
qed

lemma stripAll_last:
  assumes "a \<noteq> []" "last a \<notin> set pat"
  shows "stripAll pat a \<noteq> [] \<and> last (stripAll pat a) = last a"
proof -
  have n: "\<not> (pat \<noteq> [] \<and> prefix pat (last a # []))"
  proof
    assume h: "pat \<noteq> [] \<and> prefix pat (last a # [])"
    then obtain p ps where p: "pat = p # ps" by (cases pat) simp_all
    with h have "last a \<in> set pat" by simp
    with assms(2) show False by simp
  qed
  have one: "stripAll pat [last a] = [last a]"
    using stripAll_skip[OF n] by (simp add: stripAll_Nil)
  have "[last a] \<noteq> [] \<longrightarrow> hd [last a] \<notin> set pat" using assms(2) by simp
  from stripAll_append_left[OF this, of "butlast a"]
  have "stripAll pat (butlast a @ [last a]) = stripAll pat (butlast a) @ [last a]"
    using one by simp
  moreover have "butlast a @ [last a] = a" using assms(1) by simp
  ultimately have "stripAll pat a = stripAll pat (butlast a) @ [last a]" by simp
  then show ?thesis by simp
qed

lemma stripAll_id: "\<not> sublist pat a \<Longrightarrow> stripAll pat a = a"
proof (induction a)
  case Nil
  then show ?case by (simp add: stripAll_Nil)
next
  case (Cons c r)
  have n: "\<not> (pat \<noteq> [] \<and> prefix pat (c # r))"
    using Cons.prems by (auto simp: sublist_Cons_right)
  have "\<not> sublist pat r" using Cons.prems by (auto simp: sublist_Cons_right)
  from Cons.IH[OF this] stripAll_skip[OF n] show ?case by simp
qed

lemma stripAll_inside:
  assumes "a \<noteq> []" "hd a \<notin> set pat" "last a \<notin> set pat"
  shows "stripAll pat (x @ a @ y) = stripAll pat x @ stripAll pat a @ stripAll pat y"
proof -
  have "a @ y \<noteq> [] \<longrightarrow> hd (a @ y) \<notin> set pat" using assms(1,2) by simp
  from stripAll_append_left[OF this]
  have "stripAll pat (x @ a @ y) = stripAll pat x @ stripAll pat (a @ y)" .
  with stripAll_append_right[OF assms(1,3)] show ?thesis by simp
qed

lemma length_ge2: "a \<noteq> [] \<Longrightarrow> hd a \<noteq> last a \<Longrightarrow> 2 \<le> length a"
  by (cases a; cases "tl a") auto

lemma length_stripAll: "length (stripAll pat s) \<le> length s"
proof (induction "length s" arbitrary: s rule: less_induct)
  case less
  show ?case
  proof (cases s)
    case Nil
    then show ?thesis by (simp add: stripAll_Nil)
  next
    case (Cons c r)
    show ?thesis
    proof (cases "pat \<noteq> [] \<and> prefix pat s")
      case True
      have "length (drop (length pat) s) < length s" using True Cons by (cases pat) simp_all
      from less[OF this] stripAll_match[of pat s] True show ?thesis by simp
    next
      case False
      have "length r < length s" using Cons by simp
      from less[OF this] stripAll_skip[of pat c r] False Cons show ?thesis by simp
    qed
  qed
qed

lemma stripAll_shorter:
  assumes "pat \<noteq> []"
  shows "sublist pat s \<Longrightarrow> length (stripAll pat s) < length s"
proof (induction s)
  case Nil
  with assms show ?case by simp
next
  case (Cons c r)
  show ?case
  proof (cases "prefix pat (c # r)")
    case True
    have "length (stripAll pat (drop (length pat) (c # r))) \<le> length (drop (length pat) (c # r))"
      by (rule length_stripAll)
    moreover have "length (drop (length pat) (c # r)) < length (c # r)"
      using assms by (cases pat) simp_all
    ultimately show ?thesis using stripAll_match[OF assms True] by simp
  next
    case False
    with Cons.prems have "sublist pat r" by (auto simp: sublist_Cons_right)
    from Cons.IH[OF this] stripAll_skip[of pat c r] False show ?thesis by simp
  qed
qed

text \<open>
  Claim C4, as the code has it. Let the text be a JSON object with anything before it that
  holds no opening brace (a code fence, say) and anything after it that holds no closing
  brace (a code fence, prose). Then \<^verbatim>\<open>cleanJson\<close> returns the object with every fence
  marker removed from it, first each \<^verbatim>\<open>```json\<close> and then each remaining run of three
  backticks, wherever they stand, also inside the string values of the object: line 58
  replaces the markers in the whole text before the braces are looked for. So the result is
  exactly the object when the object holds no run of three backticks, and it is strictly
  shorter than the object when it holds one.
\<close>

theorem cleanJson_extracts_object:
  assumes obj: "json_value obj" "hd obj = CHR ''{''"
    and pre: "CHR ''{'' \<notin> set pre" and post: "CHR ''}'' \<notin> set post"
  shows "cleanJson (pre @ obj @ post) = stripAll ''```'' (stripAll ''```json'' obj) \<and>
    (\<not> sublist ''```'' obj \<longrightarrow> cleanJson (pre @ obj @ post) = obj) \<and>
    (sublist ''```'' obj \<longrightarrow> length (cleanJson (pre @ obj @ post)) < length obj)"
proof -
  from json_object_last[OF obj] have len: "length obj \<ge> 2" and l: "last obj = CHR ''}''" by simp_all
  from len have ne: "obj \<noteq> []" by auto
  let ?o1 = "stripAll ''```json'' obj"
  let ?o = "stripAll ''```'' ?o1"
  have h1: "hd obj \<notin> set ''```json''" and l1: "last obj \<notin> set ''```json''"
    using obj(2) l by simp_all
  from stripAll_hd[OF ne h1] have ne1: "?o1 \<noteq> []" and hd1: "hd ?o1 = CHR ''{''"
    using obj(2) by simp_all
  from stripAll_last[OF ne l1] have la1: "last ?o1 = CHR ''}''" using l by simp
  have h2: "hd ?o1 \<notin> set ''```''" and l2: "last ?o1 \<notin> set ''```''"
    using hd1 la1 by simp_all
  from stripAll_hd[OF ne1 h2] have ne2: "?o \<noteq> []" and hd2: "hd ?o = CHR ''{''"
    using hd1 by simp_all
  from stripAll_last[OF ne1 l2] have la2: "last ?o = CHR ''}''" using la1 by simp
  have len2: "2 \<le> length ?o" using length_ge2[OF ne2] hd2 la2 by simp
  let ?x1 = "stripAll ''```json'' pre" and ?y1 = "stripAll ''```json'' post"
  let ?x = "stripAll ''```'' ?x1" and ?y = "stripAll ''```'' ?y1"
  have "stripAll ''```json'' (pre @ obj @ post) = ?x1 @ ?o1 @ ?y1"
    by (rule stripAll_inside[OF ne h1 l1])
  moreover have "stripAll ''```'' (?x1 @ ?o1 @ ?y1) = ?x @ ?o @ ?y"
    by (rule stripAll_inside[OF ne1 h2 l2])
  ultimately have cleaned: "stripAll ''```'' (stripAll ''```json'' (pre @ obj @ post)) = ?x @ ?o @ ?y"
    by simp
  have "set ?x \<subseteq> set pre" by (rule order_trans[OF set_stripAll set_stripAll])
  with pre have x: "CHR ''{'' \<notin> set ?x" by blast
  have "set ?y \<subseteq> set post" by (rule order_trans[OF set_stripAll set_stripAll])
  with post have y: "CHR ''}'' \<notin> set ?y" by blast
  have i1: "indexOf CHR ''{'' (?x @ ?o @ ?y) = Some (length ?x)"
    using x ne2 hd2 by (intro indexOf_first) simp_all
  have "lastIndexOf CHR ''}'' ((?x @ ?o) @ ?y) = Some (length (?x @ ?o) - 1)"
    using y ne2 la2 by (intro lastIndexOf_last) simp_all
  then have i2: "lastIndexOf CHR ''}'' (?x @ ?o @ ?y) = Some (length ?x + length ?o - 1)" by simp
  have gt: "length ?x + length ?o - 1 > length ?x" using len2 by simp
  have sub: "substring (?x @ ?o @ ?y) (length ?x) (length ?x + length ?o - 1 + 1) = ?o"
    using len2 by (simp add: substring_def)
  have main: "cleanJson (pre @ obj @ post) = ?o"
    unfolding cleanJson_def cleaned Let_def i1 i2 using gt sub by simp
  have keep: "?o = obj" if fence: "\<not> sublist ''```'' obj"
  proof -
    have "\<not> sublist ''```json'' obj"
    proof
      assume "sublist ''```json'' obj"
      moreover have "sublist ''```'' ''```json''" by (simp add: sublist_Cons_right)
      ultimately show False using fence sublist_order.order_trans by blast
    qed
    then have "?o1 = obj" by (rule stripAll_id)
    with stripAll_id[OF fence] show ?thesis by simp
  qed
  have lose: "length ?o < length obj" if fence: "sublist ''```'' obj"
  proof (cases "?o1 = obj")
    case True
    with stripAll_shorter[OF _ fence] show ?thesis by simp
  next
    case False
    have "sublist ''```json'' obj"
    proof (rule ccontr)
      assume "\<not> sublist ''```json'' obj"
      from stripAll_id[OF this] False show False by simp
    qed
    then have "length ?o1 < length obj" by (intro stripAll_shorter) simp_all
    moreover have "length ?o \<le> length ?o1" by (rule length_stripAll)
    ultimately show ?thesis by simp
  qed
  from main keep lose show ?thesis by simp
qed

theorem cleanJson_extracts_object_witness:
  \<open>json_value ''{"a":1}'' \<and> hd ''{"a":1}'' = CHR ''{'' \<and>
   cleanJson ((''```json'' @ [CHR 0x0A]) @ ''{"a":1}'' @ ([CHR 0x0A] @ ''``` Done.'')) = ''{"a":1}''\<close>
proof -
  have n1: "json_value ''1''"
    by (rule jI(2), simp add: json_number_def json_fraction_def json_exponent_def is_digit_def)
  have e1: "json_element ''1''" using jI(10)[OF json_ws_Nil n1 json_ws_Nil] by simp
  have k: \<open>json_string ''"a"''\<close> by (simp add: json_string_def)
  have m: \<open>json_member ''"a":1''\<close> using jI(13)[OF json_ws_Nil k json_ws_Nil e1] by simp
  have obj: \<open>json_value ''{"a":1}''\<close> using jI(9)[OF jI(14)[OF m]] by simp
  have h: \<open>hd ''{"a":1}'' = CHR ''{''\<close> by simp
  have f: \<open>\<not> sublist ''```'' ''{"a":1}''\<close> by (simp add: sublist_Cons_right)
  have pre: "CHR ''{'' \<notin> set (''```json'' @ [CHR 0x0A])" by simp
  have post: "CHR ''}'' \<notin> set ([CHR 0x0A] @ ''``` Done.'')" by simp
  from cleanJson_extracts_object[OF obj h pre post] f obj h show ?thesis by blast
qed

text \<open>
  The two ways in which the result is not the object. Trailing prose with a closing brace in
  it is kept up to that brace: the slice ends at the last closing brace of the whole text.
  And a bare valid object, with no fence around it and nothing after it, loses the three
  backticks that one of its string values holds.
\<close>

theorem cleanJson_counterexample:
  \<open>cleanJson ''{"a":1} (see })'' = ''{"a":1} (see }'' \<and>
   json_value ''{"a":"```x"}'' \<and> cleanJson ''{"a":"```x"}'' = ''{"a":"x"}''\<close>
proof -
  have c1: \<open>cleanJson ''{"a":1} (see })'' = ''{"a":1} (see }''\<close> by code_simp
  have c2: \<open>cleanJson ''{"a":"```x"}'' = ''{"a":"x"}''\<close> by code_simp
  have k: \<open>json_string ''"a"''\<close> by (simp add: json_string_def)
  have s: \<open>json_string ''"```x"''\<close> by (simp add: json_string_def)
  have e: \<open>json_element ''"```x"''\<close> using jI(10)[OF json_ws_Nil jI(1)[OF s] json_ws_Nil] by simp
  have m: \<open>json_member ''"a":"```x"''\<close> using jI(13)[OF json_ws_Nil k json_ws_Nil e] by simp
  have obj: \<open>json_value ''{"a":"```x"}''\<close> using jI(9)[OF jI(14)[OF m]] by simp
  from c1 c2 obj show ?thesis by simp
qed


section \<open>The retry loop\<close>

declare retryFrom.simps [simp del]

lemma retryFrom_two:
  "retryFrom body 2 =
     (case body 2 of
        Inr r \<Rightarrow> (Inr r, 2)
      | Inl e \<Rightarrow> (Inl (Error (if message e \<noteq> [] then message e else ''Failed to analyze content'')), 2))"
  by (subst retryFrom.simps) (simp add: MAX_RETRIES_def split: sum.splits)

lemma retryFrom_one:
  "retryFrom body 1 = (case body 1 of Inr r \<Rightarrow> (Inr r, 1) | Inl e \<Rightarrow> retryFrom body 2)"
proof -
  have two: "Suc (Suc 0) = 2" by simp
  show ?thesis
    by (subst retryFrom.simps) (simp add: MAX_RETRIES_def two split: sum.splits)
qed

text \<open>
  Claim C8. The analysis call makes one or two attempts and no more. When the first attempt
  succeeds its result is returned; when it raises, whatever the exception, the second
  attempt is made and its result returned; when the second attempt raises as well, the call
  raises an \<^verbatim>\<open>Error\<close> whose message is the message of that last exception, or
  \<^verbatim>\<open>Failed to analyze content\<close> when that message is empty: the message is never empty.
\<close>

theorem retry_policy:
  "1 \<le> snd (analyzeLectureContent generate parse str) \<and>
   snd (analyzeLectureContent generate parse str) \<le> 2 \<and>
   (\<forall>r. attempt_outcome generate parse str 1 = Inr r \<longrightarrow>
        analyzeLectureContent generate parse str = (Inr r, 1)) \<and>
   (\<forall>e r. attempt_outcome generate parse str 1 = Inl e \<and>
          attempt_outcome generate parse str 2 = Inr r \<longrightarrow>
        analyzeLectureContent generate parse str = (Inr r, 2)) \<and>
   (\<forall>e1 e2. attempt_outcome generate parse str 1 = Inl e1 \<and>
            attempt_outcome generate parse str 2 = Inl e2 \<longrightarrow>
        (\<exists>m. analyzeLectureContent generate parse str = (Inl (Error m), 2) \<and> m \<noteq> [] \<and>
             m = (if message e2 \<noteq> [] then message e2 else ''Failed to analyze content'')))"
proof -
  let ?b = "attempt_outcome generate parse str"
  have def: "analyzeLectureContent generate parse str = retryFrom ?b 1"
    by (simp add: analyzeLectureContent_def)
  show ?thesis
  proof (cases "?b 1")
    case (Inr r)
    have eq: "analyzeLectureContent generate parse str = (Inr r, 1)"
      by (simp only: def retryFrom_one Inr sum.case)
    show ?thesis unfolding eq using Inr by simp
  next
    case (Inl e1)
    note first = Inl
    show ?thesis
    proof (cases "?b 2")
      case (Inr r)
      have eq: "analyzeLectureContent generate parse str = (Inr r, 2)"
        by (simp only: def retryFrom_one retryFrom_two first Inr sum.case)
      show ?thesis unfolding eq using first Inr by simp
    next
      case (Inl e2)
      have eq: "analyzeLectureContent generate parse str =
                  (Inl (Error (if message e2 \<noteq> [] then message e2 else ''Failed to analyze content'')), 2)"
        by (simp only: def retryFrom_one retryFrom_two first Inl sum.case)
      show ?thesis unfolding eq using first Inl by simp
    qed
  qed
qed

theorem retry_policy_witness:
  "attempt_outcome (\<lambda>n. Inl (Error ''503 Overloaded'')) (\<lambda>s. Inl SyntaxError) (\<lambda>v. []) 1
     = Inl (Error ''503 Overloaded'') \<and>
   attempt_outcome (\<lambda>n. Inl (Error ''503 Overloaded'')) (\<lambda>s. Inl SyntaxError) (\<lambda>v. []) 2
     = Inl (Error ''503 Overloaded'') \<and>
   analyzeLectureContent (\<lambda>n. Inl (Error ''503 Overloaded'')) (\<lambda>s. Inl SyntaxError) (\<lambda>v. [])
     = (Inl (Error ''503 Overloaded''), 2)"
proof -
  have a: "attempt_outcome (\<lambda>n. Inl (Error ''503 Overloaded'')) (\<lambda>s. Inl SyntaxError) (\<lambda>v. []) 1
     = Inl (Error ''503 Overloaded'') \<and>
   attempt_outcome (\<lambda>n. Inl (Error ''503 Overloaded'')) (\<lambda>s. Inl SyntaxError) (\<lambda>v. []) 2
     = Inl (Error ''503 Overloaded'')"
    by (simp add: attempt_outcome_def)
  from retry_policy[of "\<lambda>n. Inl (Error ''503 Overloaded'')" "\<lambda>s. Inl SyntaxError" "\<lambda>v. []"] a
  have "\<exists>m. analyzeLectureContent (\<lambda>n. Inl (Error ''503 Overloaded'')) (\<lambda>s. Inl SyntaxError) (\<lambda>v. [])
            = (Inl (Error m), 2) \<and> m \<noteq> [] \<and>
            m = (if message (Error ''503 Overloaded'') \<noteq> [] then message (Error ''503 Overloaded'')
                 else ''Failed to analyze content'')"
    by blast
  then have "analyzeLectureContent (\<lambda>n. Inl (Error ''503 Overloaded'')) (\<lambda>s. Inl SyntaxError) (\<lambda>v. [])
            = (Inl (Error ''503 Overloaded''), 2)" by simp
  with a show ?thesis by simp
qed

section \<open>The normalisation cascade\<close>

declare matchAll.simps [simp del]

lemma list_all_strings: "list_all is_string (map JStr xs)"
  by (simp add: list_all_iff)

lemma list_all_flashcards:
  "list_all is_Flashcard (map (\<lambda>(front, back). JObj [(''front'', JStr front), (''back'', JStr back)]) ms)"
  by (induction ms) (simp_all add: is_Flashcard_def field_of_def split_beta)

lemma list_all_quizzes:
  "list_all is_QuizQuestion
     (map (\<lambda>(q, optionsStr).
             JObj [(''question'', JStr q),
                   (''options'', JArr (map JStr (quizOptions optionsStr))),
                   (''correctAnswerIndex'', JNum (Fin 0)),
                   (''explanation'', JStr ''Explanation unavailable in fallback mode.'')]) ms)"
  by (induction ms) (simp_all add: is_QuizQuestion_def field_of_def split_beta list_all_strings)

lemma fallback_shape: "is_LectureAnalysis (fallbackExtraction text)"
  unfolding is_LectureAnalysis_def fallbackExtraction_def Let_def field_of_def
  by (simp add: list_all_strings list_all_flashcards list_all_quizzes)

lemma fallback_fields:
  "field_of (fallbackExtraction text) ''title''
     = JStr (case titleMatch text of Some t \<Rightarrow> t | None \<Rightarrow> ''Untitled Analysis'')"
  "field_of (fallbackExtraction text) ''summary''
     = JStr (case summaryMatch text of Some t \<Rightarrow> t | None \<Rightarrow> ''Summary unavailable.'')"
  "field_of (fallbackExtraction text) ''keyPoints''
     = JArr (map JStr (if keyPointsOf text \<noteq> [] then keyPointsOf text
                       else [''Analysis completed partially.'']))"
  "field_of (fallbackExtraction text) ''flashcards''
     = JArr (map (\<lambda>(front, back). JObj [(''front'', JStr front), (''back'', JStr back)])
               (matchAll flashcard_at text))"
  "field_of (fallbackExtraction text) ''quizzes''
     = JArr (map (\<lambda>(q, optionsStr).
                    JObj [(''question'', JStr q),
                          (''options'', JArr (map JStr (quizOptions optionsStr))),
                          (''correctAnswerIndex'', JNum (Fin 0)),
                          (''explanation'', JStr ''Explanation unavailable in fallback mode.'')])
               (matchAll quiz_at text))"
  unfolding fallbackExtraction_def Let_def field_of_def by simp_all

lemma after_key_no_quote: "dquote \<notin> set s \<Longrightarrow> after_key key opening s = None"
proof -
  assume n: "dquote \<notin> set s"
  have "\<not> prefix ([dquote] @ key @ [dquote]) s"
  proof
    assume "prefix ([dquote] @ key @ [dquote]) s"
    then obtain r where "s = ([dquote] @ key @ [dquote]) @ r" by (auto simp: prefix_def)
    then have "dquote \<in> set s" by simp
    with n show False by simp
  qed
  then show ?thesis by (simp add: after_key_def Let_def)
qed

lemma find_first_None:
  "(\<And>t. set t \<subseteq> set s \<Longrightarrow> f t = None) \<Longrightarrow> find_first f s = None"
proof (induction s)
  case Nil
  then show ?case by simp
next
  case (Cons c cs)
  have "f (c # cs) = None" by (rule Cons.prems) simp
  moreover have "find_first f cs = None"
    by (rule Cons.IH, rule Cons.prems) auto
  ultimately show ?case by simp
qed

lemma matchAll_Nil:
  "(\<And>t. set t \<subseteq> set s \<Longrightarrow> f t = None) \<Longrightarrow> matchAll f s = []"
proof (induction s)
  case Nil
  then show ?case by (simp add: matchAll.simps)
next
  case (Cons c cs)
  have "f (c # cs) = None" by (rule Cons.prems) simp
  moreover have "matchAll f cs = []"
    by (rule Cons.IH, rule Cons.prems) auto
  ultimately show ?case by (subst matchAll.simps) simp
qed

lemma fallback_no_quote:
  assumes "dquote \<notin> set text"
  shows "fallbackExtraction text = no_match_analysis"
proof -
  have k: "\<And>t key opening. set t \<subseteq> set text \<Longrightarrow> after_key key opening t = None"
    using assms by (intro after_key_no_quote) auto
  have t: "titleMatch text = None"
    unfolding titleMatch_def by (rule find_first_None) (simp add: k)
  have s: "summaryMatch text = None"
    unfolding summaryMatch_def by (rule find_first_None) (simp add: k)
  have "kpMatch text = None"
    unfolding kpMatch_def by (rule find_first_None) (simp add: k)
  then have kp: "keyPointsOf text = []" by (simp add: keyPointsOf_def)
  have fc: "matchAll flashcard_at text = []"
    by (rule matchAll_Nil) (simp add: flashcard_at_def k)
  have qz: "matchAll quiz_at text = []"
    by (rule matchAll_Nil) (simp add: quiz_at_def k)
  show ?thesis
    unfolding fallbackExtraction_def Let_def no_match_analysis_def t s kp fc qz by simp
qed

lemma normalize_empty_object:
  assumes "parse ''{}'' = Inr (JObj [])"
  shows "normalizeResponse parse ''{}'' = Inr (JObj [])"
proof -
  have "cleanJson ''{}'' = ''{}''" by code_simp
  with assms show ?thesis by (simp add: normalizeResponse_def)
qed

lemma after_key_hit:
  assumes "\<not> is_space opening"
  shows "after_key key opening ([dquote] @ key @ [dquote] @ '':'' @ [opening] @ body) = Some body"
proof -
  let ?lit = "[dquote] @ key @ [dquote]"
  have p: "prefix ?lit ([dquote] @ key @ [dquote] @ '':'' @ [opening] @ body)"
    by (simp add: prefix_def)
  have d: "drop (length ?lit) ([dquote] @ key @ [dquote] @ '':'' @ [opening] @ body)
             = CHR '':'' # opening # body" by simp
  have c: "\<not> is_space CHR '':''" by (simp add: is_space_def)
  show ?thesis
    unfolding after_key_def Let_def using p assms c by (simp only: d if_True) simp
qed

lemma after_key_miss: "s \<noteq> [] \<Longrightarrow> hd s \<noteq> dquote \<Longrightarrow> after_key key opening s = None"
proof -
  assume "s \<noteq> []" "hd s \<noteq> dquote"
  then have "\<not> prefix ([dquote] @ key @ [dquote]) s" by (cases s) (auto simp: prefix_def)
  then show ?thesis by (simp add: after_key_def Let_def)
qed

lemma cap_until_hit: "c \<notin> set t \<Longrightarrow> cap_until c (t @ c # rest) = Some (t, rest)"
proof -
  assume n: "c \<notin> set t"
  then have "takeWhile (\<lambda>x. x \<noteq> c) (t @ c # rest) = t" by (auto simp: takeWhile_tail)
  moreover have "dropWhile (\<lambda>x. x \<noteq> c) (t @ c # rest) = c # rest"
    using n by (auto simp: dropWhile_append3)
  ultimately show ?thesis by (simp add: cap_until_def)
qed

lemma cap_escaped_plain:
  "dquote \<notin> set t \<Longrightarrow> backslash \<notin> set t \<Longrightarrow> cap_escaped (t @ dquote # rest) = Some (t, rest)"
proof (induction t)
  case Nil
  then show ?case by (cases rest) simp_all
next
  case (Cons c t)
  then have ih: "cap_escaped (t @ dquote # rest) = Some (t, rest)" by simp
  obtain e r where er: "t @ dquote # rest = e # r" by (cases "t @ dquote # rest") simp_all
  from Cons.prems have c: "c \<noteq> dquote" "c \<noteq> backslash" by auto
  have "cap_escaped (c # e # r) = map_option (\<lambda>(b, rest). (c # b, rest)) (cap_escaped (e # r))"
    using c by simp
  with ih er show ?case by simp
qed


lemma matchAll_single:
  assumes "s \<noteq> []" "f s = Some (x, [])"
  shows "matchAll f s = [x]"
proof -
  from assms(1) obtain c cs where s: "s = c # cs" by (cases s) simp_all
  have "matchAll f [] = []" by (simp add: matchAll.simps)
  then show ?thesis using assms(2) s by (subst matchAll.simps) simp
qed

lemma title_extracted:
  assumes "dquote \<notin> set t"
  shows \<open>titleMatch (''"title":"'' @ t @ [dquote] @ rest) = Some t\<close>
proof -
  let ?s = "[dquote] @ ''title'' @ [dquote] @ '':'' @ [dquote] @ (t @ dquote # rest)"
  have eq: \<open>''"title":"'' @ t @ [dquote] @ rest = ?s\<close> by simp
  have k: "after_key ''title'' dquote ?s = Some (t @ dquote # rest)"
    by (rule after_key_hit) (simp add: is_space_def)
  have "(case after_key ''title'' dquote ?s of
           Some body \<Rightarrow> map_option fst (cap_until dquote body) | None \<Rightarrow> None) = Some t"
    unfolding k using cap_until_hit[OF assms, of rest] by simp
  moreover obtain c cs where cs: "?s = c # cs" by simp
  ultimately show ?thesis unfolding titleMatch_def eq cs by simp
qed

lemma flashcard_extracted:
  assumes f: "dquote \<notin> set f" "backslash \<notin> set f" and b: "dquote \<notin> set b" "backslash \<notin> set b"
  shows \<open>matchAll flashcard_at (''"front":"'' @ f @ ''","back":"'' @ b @ ''"'') = [(f, b)]\<close>
proof -
  let ?r2 = "[dquote] @ ''back'' @ [dquote] @ '':'' @ [dquote] @ (b @ dquote # [])"
  let ?r1 = "CHR '','' # ?r2"
  let ?s = "[dquote] @ ''front'' @ [dquote] @ '':'' @ [dquote] @ (f @ dquote # ?r1)"
  have eq: \<open>''"front":"'' @ f @ ''","back":"'' @ b @ ''"'' = ?s\<close> by simp
  have k1: "after_key ''front'' dquote ?s = Some (f @ dquote # ?r1)"
    by (rule after_key_hit) (simp add: is_space_def)
  have c1: "cap_escaped (f @ dquote # ?r1) = Some (f, ?r1)" using f by (rule cap_escaped_plain)
  have k2: "after_key ''back'' dquote ?r2 = Some (b @ dquote # [])"
    by (rule after_key_hit) (simp add: is_space_def)
  have c2: "cap_escaped (b @ dquote # []) = Some (b, [])" using b by (rule cap_escaped_plain)
  have miss: "back_at f ?r1 = None"
    unfolding back_at_def by (simp add: after_key_miss)
  have hit: "back_at f ?r2 = Some ((f, b), [])"
    using k2 c2 by (simp add: back_at_def)
  obtain c cs where cs: "?r2 = c # cs" by simp
  have ff: "find_first (back_at f) ?r1 = Some ((f, b), [])"
    using miss hit unfolding cs by simp
  have "flashcard_at ?s = Some ((f, b), [])"
    using k1 c1 ff by (simp add: flashcard_at_def)
  then have "matchAll flashcard_at ?s = [(f, b)]" by (intro matchAll_single) simp_all
  then show ?thesis unfolding eq .
qed

lemma quiz_extracted:
  assumes q: "q \<noteq> []" "dquote \<notin> set q"
    and os: "CHR '']'' \<notin> set os" "\<not> list_ex is_line_terminator os"
  shows \<open>matchAll quiz_at (''"question":"'' @ q @ ''","options":['' @ os @ '']'') = [(q, os)]\<close>
proof -
  let ?r2 = "[dquote] @ ''options'' @ [dquote] @ '':'' @ [CHR ''[''] @ (os @ CHR '']'' # [])"
  let ?r1 = "CHR '','' # ?r2"
  let ?s = "[dquote] @ ''question'' @ [dquote] @ '':'' @ [dquote] @ (q @ dquote # ?r1)"
  have eq: \<open>''"question":"'' @ q @ ''","options":['' @ os @ '']'' = ?s\<close> by simp
  have k1: "after_key ''question'' dquote ?s = Some (q @ dquote # ?r1)"
    by (rule after_key_hit) (simp add: is_space_def)
  have c1: "cap_until dquote (q @ dquote # ?r1) = Some (q, ?r1)" using q(2) by (rule cap_until_hit)
  have k2: "after_key ''options'' CHR ''['' ?r2 = Some (os @ CHR '']'' # [])"
    by (rule after_key_hit) (simp add: is_space_def)
  have c2: "cap_until CHR '']'' (os @ CHR '']'' # []) = Some (os, [])" using os(1) by (rule cap_until_hit)
  have miss: "options_at q ?r1 = None"
    unfolding options_at_def by (simp add: after_key_miss)
  have hit: "options_at q ?r2 = Some ((q, os), [])"
    using k2 c2 os(2) by (simp add: options_at_def)
  obtain c cs where cs: "?r2 = c # cs" by simp
  have ff: "find_first (options_at q) ?r1 = Some ((q, os), [])"
    using miss hit unfolding cs by simp
  have "quiz_at ?s = Some ((q, os), [])"
    using k1 c1 ff q(1) by (simp add: quiz_at_def)
  then have "matchAll quiz_at ?s = [(q, os)]" by (intro matchAll_single) simp_all
  then show ?thesis unfolding eq .
qed

text \<open>
  Claim C5, as the code has it. Whatever \<^verbatim>\<open>JSON.parse\<close> does, the cascade raises nothing and
  yields a value: the value parsed from the cleaned text, or else the value parsed from the
  repaired text, or else the result of the regular expressions. The parsed value is passed
  on as it is. The result of the regular expressions always has the shape of a
  \<^verbatim>\<open>LectureAnalysis\<close>, and each of its five fields is made from the matches of its own
  expression alone: title, summary and key points take a placeholder when theirs does not
  match, flashcards and quizzes are the lists of the matches of theirs, empty when there
  is none. A text without any double quote gives the placeholders and the empty lists; a
  text that is one title, one front and back pair, or one question with its options gives
  that title, that flashcard, that quiz.
\<close>

theorem normalize_yields_value:
  "(\<exists>d. normalizeResponse parse text = Inr d) \<and>
   (\<forall>d. parse (cleanJson text) = Inr d \<longrightarrow> normalizeResponse parse text = Inr d) \<and>
   (\<forall>e d. parse (cleanJson text) = Inl e \<and> parse (repairJson (cleanJson text)) = Inr d \<longrightarrow>
      normalizeResponse parse text = Inr d) \<and>
   (\<forall>e e'. parse (cleanJson text) = Inl e \<and> parse (repairJson (cleanJson text)) = Inl e' \<longrightarrow>
      normalizeResponse parse text = Inr (fallbackExtraction text)) \<and>
   is_LectureAnalysis (fallbackExtraction text) \<and>
   field_of (fallbackExtraction text) ''title''
     = JStr (case titleMatch text of Some t \<Rightarrow> t | None \<Rightarrow> ''Untitled Analysis'') \<and>
   field_of (fallbackExtraction text) ''summary''
     = JStr (case summaryMatch text of Some t \<Rightarrow> t | None \<Rightarrow> ''Summary unavailable.'') \<and>
   field_of (fallbackExtraction text) ''keyPoints''
     = JArr (map JStr (if keyPointsOf text \<noteq> [] then keyPointsOf text
                       else [''Analysis completed partially.''])) \<and>
   field_of (fallbackExtraction text) ''flashcards''
     = JArr (map (\<lambda>(front, back). JObj [(''front'', JStr front), (''back'', JStr back)])
               (matchAll flashcard_at text)) \<and>
   field_of (fallbackExtraction text) ''quizzes''
     = JArr (map (\<lambda>(q, optionsStr).
                    JObj [(''question'', JStr q),
                          (''options'', JArr (map JStr (quizOptions optionsStr))),
                          (''correctAnswerIndex'', JNum (Fin 0)),
                          (''explanation'', JStr ''Explanation unavailable in fallback mode.'')])
               (matchAll quiz_at text)) \<and>
   (matchAll flashcard_at text = [] \<longrightarrow> field_of (fallbackExtraction text) ''flashcards'' = JArr []) \<and>
   (matchAll quiz_at text = [] \<longrightarrow> field_of (fallbackExtraction text) ''quizzes'' = JArr []) \<and>
   (dquote \<notin> set text \<longrightarrow> fallbackExtraction text = no_match_analysis) \<and>
   (\<forall>t rest. dquote \<notin> set t \<and> text = [dquote] @ ''title'' @ [dquote] @ '':'' @ [dquote] @ t @ [dquote] @ rest \<longrightarrow>
      field_of (fallbackExtraction text) ''title'' = JStr t) \<and>
   (\<forall>f b. dquote \<notin> set f \<and> backslash \<notin> set f \<and> dquote \<notin> set b \<and> backslash \<notin> set b \<and>
      text = [dquote] @ ''front'' @ [dquote] @ '':'' @ [dquote] @ f @ [dquote] @ '','' @
             [dquote] @ ''back'' @ [dquote] @ '':'' @ [dquote] @ b @ [dquote] \<longrightarrow>
      field_of (fallbackExtraction text) ''flashcards''
        = JArr [JObj [(''front'', JStr f), (''back'', JStr b)]]) \<and>
   (\<forall>q os. q \<noteq> [] \<and> dquote \<notin> set q \<and> CHR '']'' \<notin> set os \<and> \<not> list_ex is_line_terminator os \<and>
      text = [dquote] @ ''question'' @ [dquote] @ '':'' @ [dquote] @ q @ [dquote] @ '','' @
             [dquote] @ ''options'' @ [dquote] @ '':['' @ os @ '']'' \<longrightarrow>
      field_of (fallbackExtraction text) ''quizzes''
        = JArr [JObj [(''question'', JStr q),
                      (''options'', JArr (map JStr (quizOptions os))),
                      (''correctAnswerIndex'', JNum (Fin 0)),
                      (''explanation'', JStr ''Explanation unavailable in fallback mode.'')]])"
proof -
  have a: "\<exists>d. normalizeResponse parse text = Inr d"
    by (simp add: normalizeResponse_def Let_def split: sum.splits)
  have b: "\<forall>d. parse (cleanJson text) = Inr d \<longrightarrow> normalizeResponse parse text = Inr d"
    by (simp add: normalizeResponse_def Let_def)
  have c: "\<forall>e d. parse (cleanJson text) = Inl e \<and> parse (repairJson (cleanJson text)) = Inr d \<longrightarrow>
      normalizeResponse parse text = Inr d"
    by (simp add: normalizeResponse_def Let_def)
  have d: "\<forall>e e'. parse (cleanJson text) = Inl e \<and> parse (repairJson (cleanJson text)) = Inl e' \<longrightarrow>
      normalizeResponse parse text = Inr (fallbackExtraction text)"
    by (simp add: normalizeResponse_def Let_def)
  have f: "matchAll flashcard_at text = [] \<longrightarrow> field_of (fallbackExtraction text) ''flashcards'' = JArr []"
    by (simp add: fallback_fields(4))
  have q: "matchAll quiz_at text = [] \<longrightarrow> field_of (fallbackExtraction text) ''quizzes'' = JArr []"
    by (simp add: fallback_fields(5))
  have ti: "\<forall>t rest. dquote \<notin> set t \<and>
        text = [dquote] @ ''title'' @ [dquote] @ '':'' @ [dquote] @ t @ [dquote] @ rest \<longrightarrow>
      field_of (fallbackExtraction text) ''title'' = JStr t"
  proof (intro allI impI)
    fix t rest
    assume h: "dquote \<notin> set t \<and>
        text = [dquote] @ ''title'' @ [dquote] @ '':'' @ [dquote] @ t @ [dquote] @ rest"
    then have "titleMatch text = Some t" using title_extracted[of t rest] by simp
    then show "field_of (fallbackExtraction text) ''title'' = JStr t"
      by (simp add: fallback_fields(1))
  qed
  have fl: "\<forall>f b. dquote \<notin> set f \<and> backslash \<notin> set f \<and> dquote \<notin> set b \<and> backslash \<notin> set b \<and>
      text = [dquote] @ ''front'' @ [dquote] @ '':'' @ [dquote] @ f @ [dquote] @ '','' @
             [dquote] @ ''back'' @ [dquote] @ '':'' @ [dquote] @ b @ [dquote] \<longrightarrow>
      field_of (fallbackExtraction text) ''flashcards''
        = JArr [JObj [(''front'', JStr f), (''back'', JStr b)]]"
  proof (intro allI impI)
    fix f b
    assume h: "dquote \<notin> set f \<and> backslash \<notin> set f \<and> dquote \<notin> set b \<and> backslash \<notin> set b \<and>
      text = [dquote] @ ''front'' @ [dquote] @ '':'' @ [dquote] @ f @ [dquote] @ '','' @
             [dquote] @ ''back'' @ [dquote] @ '':'' @ [dquote] @ b @ [dquote]"
    then have "matchAll flashcard_at text = [(f, b)]"
      using flashcard_extracted[of f b] by simp
    then show "field_of (fallbackExtraction text) ''flashcards''
        = JArr [JObj [(''front'', JStr f), (''back'', JStr b)]]"
      by (simp add: fallback_fields(4))
  qed
  have qu: "\<forall>q os. q \<noteq> [] \<and> dquote \<notin> set q \<and> CHR '']'' \<notin> set os \<and> \<not> list_ex is_line_terminator os \<and>
      text = [dquote] @ ''question'' @ [dquote] @ '':'' @ [dquote] @ q @ [dquote] @ '','' @
             [dquote] @ ''options'' @ [dquote] @ '':['' @ os @ '']'' \<longrightarrow>
      field_of (fallbackExtraction text) ''quizzes''
        = JArr [JObj [(''question'', JStr q),
                      (''options'', JArr (map JStr (quizOptions os))),
                      (''correctAnswerIndex'', JNum (Fin 0)),
                      (''explanation'', JStr ''Explanation unavailable in fallback mode.'')]]"
  proof (intro allI impI)
    fix q os
    assume h: "q \<noteq> [] \<and> dquote \<notin> set q \<and> CHR '']'' \<notin> set os \<and> \<not> list_ex is_line_terminator os \<and>
      text = [dquote] @ ''question'' @ [dquote] @ '':'' @ [dquote] @ q @ [dquote] @ '','' @
             [dquote] @ ''options'' @ [dquote] @ '':['' @ os @ '']''"
    then have "matchAll quiz_at text = [(q, os)]"
      using quiz_extracted[of q os] by simp
    then show "field_of (fallbackExtraction text) ''quizzes''
        = JArr [JObj [(''question'', JStr q),
                      (''options'', JArr (map JStr (quizOptions os))),
                      (''correctAnswerIndex'', JNum (Fin 0)),
                      (''explanation'', JStr ''Explanation unavailable in fallback mode.'')]]"
      by (simp add: fallback_fields(5))
  qed
  from a b c d f q fallback_shape[of "text"] fallback_fields[of "text"] fallback_no_quote[of "text"]
  have first: "(\<exists>d. normalizeResponse parse text = Inr d) \<and>
   (\<forall>d. parse (cleanJson text) = Inr d \<longrightarrow> normalizeResponse parse text = Inr d) \<and>
   (\<forall>e d. parse (cleanJson text) = Inl e \<and> parse (repairJson (cleanJson text)) = Inr d \<longrightarrow>
      normalizeResponse parse text = Inr d) \<and>
   (\<forall>e e'. parse (cleanJson text) = Inl e \<and> parse (repairJson (cleanJson text)) = Inl e' \<longrightarrow>
      normalizeResponse parse text = Inr (fallbackExtraction text)) \<and>
   is_LectureAnalysis (fallbackExtraction text)" by blast
  note ff = fallback_fields[of "text"]
  from fallback_no_quote[of "text"]
  have nq: "dquote \<notin> set text \<longrightarrow> fallbackExtraction text = no_match_analysis" by blast
  show ?thesis
    using first ff(1) ff(2) ff(3) ff(4) ff(5) f q nq ti fl qu
    by (intro conjI) (blast | assumption)+
qed

theorem normalize_yields_value_witness:
  \<open>normalizeResponse (\<lambda>s. Inl SyntaxError) ''"front": "F1", "back": "B1" and "front": "F2", "back": "B2"''
     = Inr (JObj [(''title'', JStr ''Untitled Analysis''),
                  (''summary'', JStr ''Summary unavailable.''),
                  (''keyPoints'', JArr [JStr ''Analysis completed partially.'']),
                  (''flashcards'', JArr [JObj [(''front'', JStr ''F1''), (''back'', JStr ''B1'')],
                                         JObj [(''front'', JStr ''F2''), (''back'', JStr ''B2'')]]),
                  (''quizzes'', JArr [])]) \<and>
   titleMatch ''"front": "F1", "back": "B1" and "front": "F2", "back": "B2"'' = None \<and>
   matchAll quiz_at ''"front": "F1", "back": "B1" and "front": "F2", "back": "B2"'' = [] \<and>
   matchAll flashcard_at ''"front": "F1", "back": "B1" and "front": "F2", "back": "B2"''
     = [(''F1'', ''B1''), (''F2'', ''B2'')]\<close>
proof -
  let ?t = \<open>''"front": "F1", "back": "B1" and "front": "F2", "back": "B2"''\<close>
  note t = normalize_yields_value[of "\<lambda>s. Inl SyntaxError" ?t]
  have p: "(\<lambda>s. Inl SyntaxError :: exn + json) (cleanJson ?t) = Inl SyntaxError \<and>
           (\<lambda>s. Inl SyntaxError :: exn + json) (repairJson (cleanJson ?t)) = Inl SyntaxError"
    by simp
  from t p have n: "normalizeResponse (\<lambda>s. Inl SyntaxError) ?t = Inr (fallbackExtraction ?t)"
    by blast
  have tm: "titleMatch ?t = None" by code_simp
  have qz: "matchAll quiz_at ?t = []" by code_simp
  have fc: "matchAll flashcard_at ?t = [(''F1'', ''B1''), (''F2'', ''B2'')]" by code_simp
  have fe: "fallbackExtraction ?t =
              JObj [(''title'', JStr ''Untitled Analysis''),
                  (''summary'', JStr ''Summary unavailable.''),
                  (''keyPoints'', JArr [JStr ''Analysis completed partially.'']),
                  (''flashcards'', JArr [JObj [(''front'', JStr ''F1''), (''back'', JStr ''B1'')],
                                         JObj [(''front'', JStr ''F2''), (''back'', JStr ''B2'')]]),
                  (''quizzes'', JArr [])]"
    by code_simp
  from n fe tm qz fc show ?thesis by simp
qed

text \<open>
  The cascade does not always yield a \<^verbatim>\<open>LectureAnalysis\<close>: the raw text \<^verbatim>\<open>{}\<close> is valid JSON,
  is parsed at the first step, and the empty object has none of the five fields.
\<close>

theorem normalize_counterexample:
  "\<not> (\<forall>parse. parse ''{}'' = Inr (JObj []) \<longrightarrow>
        (\<exists>d. normalizeResponse parse ''{}'' = Inr d \<and> is_LectureAnalysis d))"
proof
  assume h: "\<forall>parse. parse ''{}'' = Inr (JObj []) \<longrightarrow>
        (\<exists>d. normalizeResponse parse ''{}'' = Inr d \<and> is_LectureAnalysis d)"
  have "normalizeResponse (\<lambda>s. Inr (JObj [])) ''{}'' = Inr (JObj [])"
    by (rule normalize_empty_object) simp
  with h have "is_LectureAnalysis (JObj [])" by fastforce
  then show False by (simp add: is_LectureAnalysis_def field_of_def)
qed


end
